theory Spec2Isabelle
  imports Main "HOL-Library.Finite_Map" "HOL-Library.Sublist"
begin

section \<open>The exception unwinder of the VM (hphp/runtime/vm/unwind.cpp)\<close>

text \<open>
  A shallow embedding of \<^verbatim>\<open>unwind.cpp\<close>. Pointers are addresses (\<open>nat\<close>), a null
  pointer is \<open>None\<close>. The VM registers, the fault vector, the frames and the heap
  objects the unwinder reads are fields of one state record that every function takes
  and returns. A call into the runtime whose body is outside this file (reference
  counting, stack pops, wait-handle transitions) appends an event to the state's log, in
  program order, together with the value that \<^verbatim>\<open>m_unwindingCppException\<close> has when the
  call is made (the code that runs in the call can read the flag). The model is the one
  of a debug build: \<^verbatim>\<open>assertx\<close> is checked, and a failed assertion,
  \<^verbatim>\<open>not_reached()\<close> and a dereference of a pointer that designates nothing end the
  run with an \<open>abort\<close> value. The assertions about
  addresses of the stack and about the property tables of classes are named where they
  are left out. \<^verbatim>\<open>unwindBuiltinFrame\<close> and the trace output are not modelled.
\<close>

subsection \<open>Data\<close>

type_synonym addr = nat

type_synonym Offset = int

text \<open>An abort names the assertion that failed (the asserted expression).\<close>

datatype abort = AssertFailed string | NotReached | InvalidPointer

text \<open>A C++ \<^verbatim>\<open>throw\<close> that leaves a function: a guest object (\<^verbatim>\<open>throw_object\<close>) or a
  host exception.\<close>

datatype Thrown = ThrowObject addr | ThrowCpp addr

text \<open>
  Modelled from the spec: the opcode set is declared in \<^verbatim>\<open>hhbc.h\<close>. The unwinder tells
  apart only \<^verbatim>\<open>OpRetC\<close>, the constructor-preparing pushes (\<^verbatim>\<open>isFPushCtor\<close>) and the
  member instructions (\<^verbatim>\<open>isMemberDimOp\<close>, \<^verbatim>\<open>isMemberFinalOp\<close>); one constructor
  stands for each class and \<open>OpOther\<close> for every remaining opcode.
\<close>

datatype Op = OpRetC | OpFPushCtor | OpMemberDim | OpMemberFinal | OpOther

definition isFPushCtor :: "Op \<Rightarrow> bool" where
  "isFPushCtor opc = (opc = OpFPushCtor)"

definition isMemberDimOp :: "Op \<Rightarrow> bool" where
  "isMemberDimOp opc = (opc = OpMemberDim)"

definition isMemberFinalOp :: "Op \<Rightarrow> bool" where
  "isMemberFinalOp opc = (opc = OpMemberFinal)"

datatype TypedValue = KindOfUninit | KindOfNull | KindOfObject addr | KindOfOther

datatype EHType = EHType_Catch | EHType_Fault

record EHEnt =
  m_type :: EHType
  m_handler :: Offset
  m_parentIndex :: int

record FPIEnt =
  m_fpushOff :: Offset

text \<open>
  \<^verbatim>\<open>Class\<close>: the constructor of a class (the identity of its \<^verbatim>\<open>Func\<close>, which may be
  inherited) and its destructor, if it has one.
  \<^verbatim>\<open>Func\<close>: the fields and accessors of a function descriptor that the unwinder
  uses. \<open>func_id\<close> is the identity of the descriptor (the code compares \<^verbatim>\<open>Func*\<close>
  pointers), \<open>cls\<close> the class the function is declared in, if any. \<open>findEH\<close> gives
  the index in \<open>ehtab\<close> of the innermost entry covering an offset, \<open>getOp\<close> the opcode
  of the function's unit at an offset, and
  \<open>findPrecedingFPI\<close> the call-preparation region before an offset; their bodies are in
  \<^verbatim>\<open>func.h\<close> and \<^verbatim>\<open>unit.h\<close>, so their results are data of the descriptor here.
\<close>

record Class =
  getCtor :: nat
  getDtor :: "nat option"

record Func =
  func_id :: nat
  numLocals :: nat
  numSlotsInFrame :: nat
  numClsRefSlots :: nat
  base :: Offset
  ehtab :: "EHEnt list"
  findEH :: "Offset \<Rightarrow> nat option"
  getOp :: "Offset \<Rightarrow> Op"
  findPrecedingFPI :: "Offset \<Rightarrow> FPIEnt option"
  isAsyncFunction :: bool
  isAsyncGenerator :: bool
  isNonAsyncGenerator :: bool
  cls :: "Class option"

text \<open>
  A heap object: its class, whether it is an instance of the throwable base classes, and
  the value of its property slot \<^verbatim>\<open>s_previousIdx\<close>.
\<close>

record ObjectData =
  getVMClass :: Class
  throwable :: bool
  previous :: TypedValue

text \<open>
  An activation record. The last seven fields are what the accessors of the frame's
  wait-handle or generator return (\<^verbatim>\<open>frame_afwh(fp)\<close> and its \<^verbatim>\<open>isRunning()\<close>;
  \<^verbatim>\<open>frame_async_generator(fp)\<close>, its \<^verbatim>\<open>isEagerlyExecuted()\<close>, its
  \<^verbatim>\<open>getWaitHandle()->isRunning()\<close> and the eager result of its \<^verbatim>\<open>fail\<close>;
  \<^verbatim>\<open>frame_generator(fp)\<close>).
  \<open>evalBase\<close> is the height of the evaluation stack at the base of the frame's
  temporaries.
\<close>

record ActRec =
  m_func :: Func
  m_sfp :: "addr option"
  m_soff :: Offset
  m_this :: "addr option"
  resumed :: bool
  localsDecRefd :: bool
  isFCallAwait :: bool
  evalBase :: nat
  frame_afwh :: addr
  afwh_isRunning :: bool
  frame_async_generator :: addr
  gen_isEagerlyExecuted :: bool
  gen_wh_isRunning :: bool
  gen_fail_result :: "addr option"
  frame_generator :: addr

text \<open>\<^verbatim>\<open>Fault\<close>, the unit of work of the unwinder.\<close>

record Fault =
  m_userException :: "addr option"
  m_raiseNesting :: int
  m_raiseFrame :: "addr option"
  m_raiseOffset :: Offset
  m_handledCount :: int

text \<open>
  Modelled from the spec: the sentinels \<^verbatim>\<open>kInvalidOffset\<close> and \<^verbatim>\<open>kInvalidNesting\<close> are
  declared outside this file. The theorems hold for any values of theirs; the examples
  use only that the offsets 20 and 25 and the nesting 0 are not sentinels.
\<close>

definition kInvalidOffset :: Offset where
  "kInvalidOffset = 2147483647"

definition kInvalidNesting :: int where
  "kInvalidNesting = -1"

text \<open>An element of the evaluation stack: a cell, or a pre-live activation record
  (its receiver and the offset of the push that made it), or a live activation record.\<close>

datatype StackElem =
    ElemTV TypedValue
  | ElemPreLive "addr option" Offset
  | ElemActRec addr

text \<open>The calls into the runtime, as they are logged.\<close>

datatype Event =
    SetNoDestruct addr
  | FreeLocalsUnwind addr nat "addr option"
  | DecRefObj addr
  | IncRefCount addr
  | TvDecRefGen TypedValue
  | PopAR
  | PopTV
  | TrashClsRef addr nat
  | DebuggerHook
  | CreateFailed addr
  | AfwhFail addr addr
  | AfwhFailCpp addr
  | AsyncGenFail addr addr
  | AsyncGenFailCpp addr
  | GenFail addr

datatype UnwindAction = Propagate | ResumeVM

record VMState =
  vmfp :: "addr option"
  vmpc :: "Offset option"
  vmStack :: "StackElem list"
  m_faults :: "Fault list"
  m_nestedVMs_size :: nat
  m_unwindingCppException :: bool
  m_pendingException :: "addr option"
  tvRef :: TypedValue
  tvRef2 :: TypedValue
  frames :: "addr \<rightharpoonup> ActRec"
  objs :: "(addr, ObjectData) fmap"
  events :: "Event list"
  events_unwindingCpp :: "bool list"

text \<open>A call is logged with the value of \<open>m_unwindingCppException\<close> at the call.\<close>

definition log_event :: "Event \<Rightarrow> VMState \<Rightarrow> VMState" where
  "log_event e s =
     s\<lparr>events := events s @ [e],
       events_unwindingCpp := events_unwindingCpp s @ [m_unwindingCppException s]\<rparr>"

text \<open>
  What the unwinder asks of the runtime outside this file, as parameters:
  \<^verbatim>\<open>g_context->getPrevVMState(fp, &prevPc)\<close> (the calling frame and the offset of the
  call in it, if any), what \<^verbatim>\<open>frame_free_locals_unwind\<close> raises when a destructor it
  runs raises (\<open>None\<close>: it returns), and the object
  \<^verbatim>\<open>c_StaticWaitHandle::CreateFailed\<close> returns for an exception.
\<close>

record Runtime =
  getPrevVMState :: "VMState \<Rightarrow> addr \<Rightarrow> (addr \<times> Offset) option"
  release_raises :: "VMState \<Rightarrow> addr \<Rightarrow> Thrown option"
  createFailed :: "addr \<Rightarrow> addr"

definition abort_bind :: "abort + 'a \<Rightarrow> ('a \<Rightarrow> abort + 'b) \<Rightarrow> abort + 'b" where
  "abort_bind m f = (case m of Inl a \<Rightarrow> Inl a | Inr x \<Rightarrow> f x)"

text \<open>\<^verbatim>\<open>peek_op(pc)\<close>: the opcode at the program counter, in the unit of the current
  frame's function.\<close>

definition peek_op :: "VMState \<Rightarrow> abort + Op" where
  "peek_op s =
     (case vmfp s of None \<Rightarrow> Inl InvalidPointer
      | Some fp \<Rightarrow>
     (case frames s fp of None \<Rightarrow> Inl InvalidPointer
      | Some ar \<Rightarrow>
     (case vmpc s of None \<Rightarrow> Inl InvalidPointer
      | Some pc \<Rightarrow> Inr (getOp (m_func ar) pc))))"

text \<open>\<^verbatim>\<open>m_faults.pop_back()\<close> and \<^verbatim>\<open>m_faults.back() = fault\<close>; the vector's back is
  the last element of the list.\<close>

definition faults_pop_back :: "VMState \<Rightarrow> abort + VMState" where
  "faults_pop_back s =
     (if m_faults s = [] then Inl InvalidPointer
      else Inr (s\<lparr>m_faults := butlast (m_faults s)\<rparr>))"

definition faults_set_back :: "Fault \<Rightarrow> VMState \<Rightarrow> abort + VMState" where
  "faults_set_back fault s =
     (if m_faults s = [] then Inl InvalidPointer
      else Inr (s\<lparr>m_faults := butlast (m_faults s) @ [fault]\<rparr>))"

subsection \<open>Temporary Disposer: \<^verbatim>\<open>discardStackTemps\<close>, \<^verbatim>\<open>discardMemberTVRefs\<close>\<close>

text \<open>
  Modelled from the spec: \<^verbatim>\<open>visitStackElems\<close> is in \<^verbatim>\<open>bytecode.h\<close>. It walks the
  evaluation stack from its top down to the frame's base and hands each pre-live
  activation record (with the offset of its push) and each cell to the two callbacks of
  \<^verbatim>\<open>discardStackTemps\<close>, which are written out here; \<open>n\<close> is the number of elements
  left to visit. A live activation record among the temporaries is not an element the
  visit can hand to a callback: there the assertion of the cell callback fails.
\<close>

fun visitStackElems :: "Func \<Rightarrow> nat \<Rightarrow> VMState \<Rightarrow> abort + VMState" where
  "visitStackElems func 0 s = Inr s"
| "visitStackElems func (Suc n) s =
     (case vmStack s of
        [] \<Rightarrow> Inr s
      | ElemPreLive this pushOff # rest \<Rightarrow>
          (if isFPushCtor (getOp func pushOff) then
             (case this of
                None \<Rightarrow> Inl (AssertFailed ''ar->hasThis()'')
              | Some obj \<Rightarrow>
                  visitStackElems func n
                    (log_event PopAR (log_event (SetNoDestruct obj) s)\<lparr>vmStack := rest\<rparr>))
           else visitStackElems func n ((log_event PopAR s)\<lparr>vmStack := rest\<rparr>))
      | ElemTV tv # rest \<Rightarrow> visitStackElems func n ((log_event PopTV s)\<lparr>vmStack := rest\<rparr>)
      | ElemActRec a # rest \<Rightarrow> Inl (AssertFailed ''tv == stack.top()''))"

definition trashClsRefSlots :: "addr \<Rightarrow> nat \<Rightarrow> VMState \<Rightarrow> VMState" where
  "trashClsRefSlots fp numSlots s =
     s\<lparr>events := events s @ map (TrashClsRef fp) [0..<numSlots],
       events_unwindingCpp :=
         events_unwindingCpp s @ replicate numSlots (m_unwindingCppException s)\<rparr>"

definition discardStackTemps :: "addr \<Rightarrow> Offset \<Rightarrow> VMState \<Rightarrow> abort + VMState" where
  "discardStackTemps fp bcOffset s =
     (case frames s fp of None \<Rightarrow> Inl InvalidPointer
      | Some ar \<Rightarrow>
          abort_bind
            (visitStackElems (m_func ar) (length (vmStack s) - evalBase ar) s)
            (\<lambda>s1. Inr (trashClsRefSlots fp (numClsRefSlots (m_func ar)) s1)))"

definition discardMemberTVRefs :: "VMState \<Rightarrow> abort + VMState" where
  "discardMemberTVRefs s =
     abort_bind (peek_op s) (\<lambda>throwOp.
       if isMemberDimOp throwOp \<or> isMemberFinalOp throwOp then
         (let s1 = (log_event (TvDecRefGen (tvRef s)) s)\<lparr>tvRef := KindOfUninit\<rparr>;
              s2 = (log_event (TvDecRefGen (tvRef2 s1)) s1)\<lparr>tvRef2 := KindOfUninit\<rparr>
          in Inr s2)
       else Inr s)"

subsection \<open>Handler Resolver: \<^verbatim>\<open>checkHandlers\<close>\<close>

text \<open>\<^verbatim>\<open>func->ehtab()[i]\<close>; an index outside the table designates nothing.\<close>

definition ehtab_at :: "Func \<Rightarrow> int \<Rightarrow> EHEnt option" where
  "ehtab_at func i =
     (if 0 \<le> i \<and> nat i < length (ehtab func) then Some (ehtab func ! nat i) else None)"

text \<open>Modelled from the spec: the debugger hook is in \<^verbatim>\<open>debugger-hook.h\<close>; a call of it
  is an event of the log.\<close>

definition phpDebuggerExceptionHandlerHook :: "VMState \<Rightarrow> VMState" where
  "phpDebuggerExceptionHandlerHook s = log_event DebuggerHook s"

text \<open>
  The loop \<^verbatim>\<open>for (int i = 0;; ++i)\<close> of \<^verbatim>\<open>checkHandlers\<close>, from the entry \<open>eh\<close> at
  iteration \<open>i\<close>. Both handler kinds set the program counter to the handler and return
  \<open>ResumeVM\<close>, after the increment of \<open>m_handledCount\<close>.
\<close>

function checkHandlers_loop ::
  "Func \<Rightarrow> EHEnt \<Rightarrow> int \<Rightarrow> VMState \<Rightarrow> Fault \<Rightarrow> abort + (UnwindAction \<times> VMState \<times> Fault)" where
  "checkHandlers_loop func eh i s fault =
     (if m_handledCount fault \<le> i then
        (let fault' = fault\<lparr>m_handledCount := m_handledCount fault + 1\<rparr> in
         case m_type eh of
           EHType_Fault \<Rightarrow>
             Inr (ResumeVM,
                  phpDebuggerExceptionHandlerHook (s\<lparr>vmpc := Some (m_handler eh)\<rparr>), fault')
         | EHType_Catch \<Rightarrow>
             Inr (ResumeVM,
                  phpDebuggerExceptionHandlerHook (s\<lparr>vmpc := Some (m_handler eh)\<rparr>), fault'))
      else if m_parentIndex eh \<noteq> -1 then
        (case ehtab_at func (m_parentIndex eh) of
           None \<Rightarrow> Inl InvalidPointer
         | Some eh' \<Rightarrow> checkHandlers_loop func eh' (i + 1) s fault)
      else Inr (Propagate, s, fault))"
  by pat_completeness auto

termination
  by (relation "measure (\<lambda>(func, eh, i, s, fault). nat (m_handledCount fault - i))") auto

declare checkHandlers_loop.simps [simp del]

definition checkHandlers ::
  "EHEnt \<Rightarrow> ActRec \<Rightarrow> VMState \<Rightarrow> Fault \<Rightarrow> abort + (UnwindAction \<times> VMState \<times> Fault)" where
  "checkHandlers eh fp s fault = checkHandlers_loop (m_func fp) eh 0 s fault"

subsection \<open>Frame Tearer: \<^verbatim>\<open>tearDownFrame\<close>\<close>

definition setLocalsDecRefd :: "addr \<Rightarrow> ActRec \<Rightarrow> VMState \<Rightarrow> VMState" where
  "setLocalsDecRefd fp ar s = s\<lparr>frames := (frames s)(fp \<mapsto> ar\<lparr>localsDecRefd := True\<rparr>)\<rparr>"

text \<open>
  Modelled from the spec: \<^verbatim>\<open>frame_free_locals_unwind\<close> is in \<^verbatim>\<open>runtime.h\<close>. It releases
  the locals of the frame, which is one event of the log; a destructor that it runs may
  raise, and what leaves the call then is the runtime parameter \<open>release_raises\<close>.
\<close>

definition frame_free_locals_unwind ::
  "Runtime \<Rightarrow> addr \<Rightarrow> nat \<Rightarrow> addr option \<Rightarrow> VMState \<Rightarrow> Thrown option \<times> VMState" where
  "frame_free_locals_unwind rt fp n phpException s =
     (release_raises rt s fp, log_event (FreeLocalsUnwind fp n phpException) s)"

text \<open>The lambda \<^verbatim>\<open>decRefLocals\<close>; the two branches of the inner \<open>case\<close> are the
  \<^verbatim>\<open>try\<close> block left by an exception (\<^verbatim>\<open>catch (...) {}\<close>) and left normally.\<close>

definition decRefLocals ::
  "Runtime \<Rightarrow> addr \<Rightarrow> Func \<Rightarrow> addr option \<Rightarrow> VMState \<Rightarrow> abort + VMState" where
  "decRefLocals rt fp func phpException s =
     (case frames s fp of None \<Rightarrow> Inl InvalidPointer
      | Some ar \<Rightarrow>
          if \<not> localsDecRefd ar then
            (case frame_free_locals_unwind rt fp (numLocals func) phpException
                    (setLocalsDecRefd fp ar s) of
               (Some thrown, s2) \<Rightarrow> Inr s2
             | (None, s2) \<Rightarrow> Inr s2)
          else Inr s)"

text \<open>The first statement of \<^verbatim>\<open>tearDownFrame\<close>: the guard for a constructor that
  throws.\<close>

definition ctorGuard :: "Runtime \<Rightarrow> addr \<Rightarrow> ActRec \<Rightarrow> Op \<Rightarrow> VMState \<Rightarrow> abort + VMState" where
  "ctorGuard rt fp ar curOp s =
     (if curOp \<noteq> OpRetC \<and> \<not> localsDecRefd ar \<and> cls (m_func ar) \<noteq> None \<and> m_this ar \<noteq> None then
        (case fmlookup (objs s) (the (m_this ar)) of
           None \<Rightarrow> Inl InvalidPointer
         | Some this \<Rightarrow>
             if getCtor (getVMClass this) = func_id (m_func ar) \<and> getDtor (getVMClass this) \<noteq> None
             then
               (case getPrevVMState rt s fp of
                  None \<Rightarrow> Inr s
                | Some (outer, prevPc) \<Rightarrow>
                    (case frames s outer of
                       None \<Rightarrow> Inl InvalidPointer
                     | Some outer_ar \<Rightarrow>
                         (case findPrecedingFPI (m_func outer_ar) prevPc of
                            None \<Rightarrow> Inr s
                          | Some fe \<Rightarrow>
                              if isFPushCtor (getOp (m_func outer_ar) (m_fpushOff fe))
                              then Inr (log_event (SetNoDestruct (the (m_this ar))) s)
                              else Inr s)))
             else Inr s)
      else Inr s)"

text \<open>Modelled from the spec: the operations of \<^verbatim>\<open>Stack\<close> are in \<^verbatim>\<open>bytecode.h\<close>.
  \<^verbatim>\<open>stack.ndiscard(n); stack.discardAR()\<close>: the frame's slots and its record leave
  the stack.\<close>

definition freeActRec :: "Func \<Rightarrow> VMState \<Rightarrow> VMState" where
  "freeActRec func s = s\<lparr>vmStack := drop 1 (drop (numSlotsInFrame func) (vmStack s))\<rparr>"

text \<open>\<^verbatim>\<open>stack.ndiscard(n); stack.ret(); cellCopy(waitHandle, *fp->retSlot())\<close>: the
  frame's record is replaced by its return slot, which must be this frame's.\<close>

definition returnWaitHandle :: "addr \<Rightarrow> Func \<Rightarrow> addr \<Rightarrow> VMState \<Rightarrow> abort + VMState" where
  "returnWaitHandle fp func waitHandle s =
     (case drop (numSlotsInFrame func) (vmStack s) of
        ElemActRec a # rest \<Rightarrow>
          if a = fp then Inr (s\<lparr>vmStack := ElemTV (KindOfObject waitHandle) # rest\<rparr>)
          else Inl (AssertFailed ''stack.topTV() == fp->retSlot()'')
      | _ \<Rightarrow> Inl (AssertFailed ''stack.topTV() == fp->retSlot()''))"

text \<open>The \<^verbatim>\<open>if\<close> chain over the kind of frame; the result is the exception that goes
  on propagating and the new state.\<close>

definition releaseFrame ::
  "Runtime \<Rightarrow> addr \<Rightarrow> ActRec \<Rightarrow> addr option \<Rightarrow> VMState \<Rightarrow> abort + (addr option \<times> VMState)" where
  "releaseFrame rt fp ar phpException s =
     (let func = m_func ar in
      if \<not> resumed ar then
        abort_bind (decRefLocals rt fp func phpException s) (\<lambda>s1.
          if isAsyncFunction func \<and> phpException \<noteq> None \<and> \<not> isFCallAwait ar then
            (let waitHandle = createFailed rt (the phpException);
                 s2 = log_event (CreateFailed (the phpException)) s1
             in abort_bind (returnWaitHandle fp func waitHandle s2) (\<lambda>s3. Inr (None, s3)))
          else Inr (phpException, freeActRec func s1))
      else if isAsyncFunction func then
        (let waitHandle = frame_afwh ar in
         if phpException \<noteq> None then
           abort_bind (decRefLocals rt fp func phpException s) (\<lambda>s1.
             Inr (None, log_event (DecRefObj waitHandle)
                          (log_event (AfwhFail waitHandle (the phpException)) s1)))
         else if afwh_isRunning ar then
           abort_bind (decRefLocals rt fp func phpException s) (\<lambda>s1.
             Inr (phpException, log_event (DecRefObj waitHandle)
                                  (log_event (AfwhFailCpp waitHandle) s1)))
         else Inr (phpException, s))
      else if isAsyncGenerator func then
        (let gen = frame_async_generator ar in
         if phpException \<noteq> None then
           abort_bind (decRefLocals rt fp func phpException s) (\<lambda>s1.
             (let s2 = log_event (AsyncGenFail gen (the phpException)) s1 in
              case gen_fail_result ar of
                Some eagerResult \<Rightarrow>
                  Inr (None, s2\<lparr>vmStack := ElemTV (KindOfObject eagerResult) # vmStack s2\<rparr>)
              | None \<Rightarrow> Inr (None, s2)))
         else if gen_isEagerlyExecuted ar \<or> gen_wh_isRunning ar then
           abort_bind (decRefLocals rt fp func phpException s) (\<lambda>s1.
             Inr (phpException, log_event (AsyncGenFailCpp gen) s1))
         else Inr (phpException, s))
      else if isNonAsyncGenerator func then
        abort_bind (decRefLocals rt fp func phpException s) (\<lambda>s1.
          Inr (phpException, log_event (GenFail (frame_generator ar)) s1))
      else Inl NotReached)"

text \<open>An \<^verbatim>\<open>Offset\<close> is an \<^verbatim>\<open>int32_t\<close>: the sum of two offsets is taken in 32 bits
  (two's complement).\<close>

definition offset_add :: "Offset \<Rightarrow> Offset \<Rightarrow> Offset" where
  "offset_add a b = (a + b + 2147483648) mod 4294967296 - 2147483648"

text \<open>The end of \<^verbatim>\<open>tearDownFrame\<close>: the registers move to the calling frame, or become
  null at the last frame of the nesting. The assertion before it,
  \<^verbatim>\<open>stack.isValidAddress(prevFp) || prevFp->resumed()\<close>, is about the addresses of the
  stack and has no counterpart here.\<close>

definition returnToCaller ::
  "addr option \<Rightarrow> Offset \<Rightarrow> addr option \<times> VMState \<Rightarrow> abort + (addr option \<times> VMState)" where
  "returnToCaller prevFp soff r =
     (case r of (phpException, s) \<Rightarrow>
        (case prevFp of
           None \<Rightarrow> Inr (phpException, s\<lparr>vmpc := None, vmfp := None\<rparr>)
         | Some p \<Rightarrow>
             (case frames s p of
                None \<Rightarrow> Inl InvalidPointer
              | Some prev_ar \<Rightarrow>
                  Inr (phpException,
                       s\<lparr>vmpc := Some (offset_add soff (base (m_func prev_ar))),
                         vmfp := Some p\<rparr>))))"

text \<open>\<^verbatim>\<open>tearDownFrame(fp, stack, pc, phpException)\<close>, called on the VM registers.\<close>

definition tearDownFrame ::
  "Runtime \<Rightarrow> VMState \<Rightarrow> addr option \<Rightarrow> abort + (addr option \<times> VMState)" where
  "tearDownFrame rt s phpException =
     (case vmfp s of None \<Rightarrow> Inl InvalidPointer
      | Some fp \<Rightarrow>
     (case frames s fp of None \<Rightarrow> Inl InvalidPointer
      | Some ar \<Rightarrow>
          abort_bind (peek_op s) (\<lambda>curOp.
          abort_bind (ctorGuard rt fp ar curOp s) (\<lambda>s1.
          abort_bind (releaseFrame rt fp ar phpException s1)
            (returnToCaller (m_sfp ar) (m_soff ar))))))"

subsection \<open>Exception Chainer: \<^verbatim>\<open>chainFaultObjects\<close>, \<^verbatim>\<open>chainFaults\<close>\<close>

text \<open>
  The lambda \<^verbatim>\<open>findAcyclicPrev\<close>, with the set \<open>seen\<close> it shares between its two calls
  as an argument and a result. The result \<open>Some a\<close> is the \<^verbatim>\<open>member_lval\<close> of the
  \<^verbatim>\<open>previous\<close> slot of the object \<open>a\<close>, \<open>None\<close> is the null \<^verbatim>\<open>member_lval\<close>. Each
  turn of the \<^verbatim>\<open>do ... while\<close> loop is one call; the heap is finite and every turn
  adds an object of the heap to \<open>seen\<close>, which is the termination argument. One flag,
  \<open>throwable\<close>, stands for both tests of the source, \<^verbatim>\<open>is_throwable\<close> (an instance of
  \<^verbatim>\<open>Error\<close> or \<^verbatim>\<open>Exception\<close>) and \<^verbatim>\<open>instanceof(s_ThrowableClass)\<close>. The assertion
  \<^verbatim>\<open>throwable_has_expected_props()\<close> of \<^verbatim>\<open>chainFaultObjects\<close> is about the property
  tables of the two base classes and has no counterpart here.
\<close>

function findAcyclicPrev ::
  "addr \<Rightarrow> addr set \<Rightarrow> VMState \<Rightarrow> addr \<Rightarrow> abort + (addr option \<times> addr set \<times> VMState)" where
  "findAcyclicPrev prev seen s head =
     (case fmlookup (objs s) head of
        None \<Rightarrow> Inl InvalidPointer
      | Some obj \<Rightarrow>
          if \<not> throwable obj then Inl (AssertFailed ''is_throwable(head)'')
          else if head \<in> seen then Inr (None, seen, log_event (DecRefObj prev) s)
          else
            (case previous obj of
               KindOfUninit \<Rightarrow> Inl (AssertFailed ''foundLval.type() != KindOfUninit'')
             | KindOfObject p \<Rightarrow>
                 (case fmlookup (objs s) p of
                    None \<Rightarrow> Inl InvalidPointer
                  | Some pobj \<Rightarrow>
                      if throwable pobj then findAcyclicPrev prev (insert head seen) s p
                      else Inr (Some head, insert head seen, s))
             | KindOfNull \<Rightarrow> Inr (Some head, insert head seen, s)
             | KindOfOther \<Rightarrow> Inr (Some head, insert head seen, s)))"
  by pat_completeness auto

termination
proof (relation "measure (\<lambda>(prev, seen, s, head). card (fmdom' (objs s) - seen))")
  show "wf (measure (\<lambda>(prev, seen, s, head). card (fmdom' (objs s) - seen)))"
    by simp
next
  fix prev :: addr and seen :: "addr set" and s :: VMState and head :: addr
    and obj :: ObjectData and p :: addr and pobj :: ObjectData
  assume look: "fmlookup (objs s) head = Some obj" and fresh: "head \<notin> seen"
  from look have "head \<in> fmdom' (objs s) - seen"
    using fresh by (simp add: fmdom'I)
  then have "card (fmdom' (objs s) - insert head seen) < card (fmdom' (objs s) - seen)"
    by (metis Diff_insert card_Diff1_less finite_Diff finite_fmdom')
  then show "((prev, insert head seen, s, p), (prev, seen, s, head))
      \<in> measure (\<lambda>(prev, seen, s, head). card (fmdom' (objs s) - seen))"
    by simp
qed

declare findAcyclicPrev.simps [simp del]

text \<open>Modelled from the spec: \<^verbatim>\<open>tvSetIgnoreRef\<close> is in \<^verbatim>\<open>tv-mutate.h\<close>.
  \<^verbatim>\<open>tvSetIgnoreRef(make_tv<KindOfObject>(prev), lval)\<close>: the slot takes the new
  value and the old one is released.\<close>

definition tvSetIgnoreRef :: "TypedValue \<Rightarrow> addr \<Rightarrow> VMState \<Rightarrow> abort + VMState" where
  "tvSetIgnoreRef v lval s =
     (case fmlookup (objs s) lval of
        None \<Rightarrow> Inl InvalidPointer
      | Some obj \<Rightarrow>
          Inr (log_event (TvDecRefGen (previous obj))
                 (s\<lparr>objs := fmupd lval (obj\<lparr>previous := v\<rparr>) (objs s)\<rparr>)))"

definition chainFaultObjects :: "addr \<Rightarrow> addr \<Rightarrow> VMState \<Rightarrow> abort + VMState" where
  "chainFaultObjects top_obj prev s =
     abort_bind (findAcyclicPrev prev {} s top_obj) (\<lambda>(prevLval, seen1, s1).
       case prevLval of
         None \<Rightarrow> Inr s1
       | Some lval \<Rightarrow>
           abort_bind (findAcyclicPrev prev seen1 s1 prev) (\<lambda>(prevLval2, seen2, s2).
             case prevLval2 of
               None \<Rightarrow> Inr s2
             | Some lval2 \<Rightarrow> tvSetIgnoreRef (KindOfObject prev) lval s2))"

text \<open>\<^verbatim>\<open>chainFaults(Fault& fault)\<close>: the result holds the returned flag, the state and
  the fault as the call leaves it.\<close>

definition chainFaults :: "VMState \<Rightarrow> Fault \<Rightarrow> abort + (bool \<times> VMState \<times> Fault)" where
  "chainFaults s fault =
     (if m_faults s = [] then Inl (AssertFailed ''!g_context->m_faults.empty()'')
      else
        (let faults = butlast (m_faults s) in
         if faults = [] then Inr (False, s\<lparr>m_faults := [fault]\<rparr>, fault)
         else
           (let prev = last faults in
            if m_raiseNesting fault = m_raiseNesting prev \<and> m_raiseFrame fault = m_raiseFrame prev
            then
              (let fault' = fault\<lparr>m_raiseOffset := m_raiseOffset prev,
                                  m_handledCount := m_handledCount prev\<rparr>
               in case (m_userException fault', m_userException prev) of
                    (Some top_obj, Some prev_obj) \<Rightarrow>
                      abort_bind (chainFaultObjects top_obj prev_obj (s\<lparr>m_faults := faults\<rparr>))
                        (\<lambda>s1. Inr (True, s1\<lparr>m_faults := butlast (m_faults s1) @ [fault']\<rparr>,
                                   fault'))
                  | _ \<Rightarrow> Inl InvalidPointer)
            else Inr (False, s\<lparr>m_faults := faults @ [fault]\<rparr>, fault))))"

subsection \<open>Guest-exception driver: \<^verbatim>\<open>unwindPhp\<close>\<close>

lemma findAcyclicPrev_faults:
  "findAcyclicPrev prev seen s head = Inr (lv, seen', s') \<Longrightarrow> m_faults s' = m_faults s"
proof (induction prev seen s head rule: findAcyclicPrev.induct)
  case (1 prev seen s head)
  from "1.prems" "1.IH" show ?case
    by (subst (asm) findAcyclicPrev.simps)
      (auto split: option.splits if_splits TypedValue.splits simp: log_event_def)
qed

lemma chainFaultObjects_faults:
  "chainFaultObjects top_obj prev s = Inr s' \<Longrightarrow> m_faults s' = m_faults s"
  unfolding chainFaultObjects_def abort_bind_def tvSetIgnoreRef_def
  by (auto split: sum.splits option.splits simp: log_event_def dest!: findAcyclicPrev_faults)

lemma length_butlast_twice:
  "xs \<noteq> [] \<Longrightarrow> butlast xs \<noteq> [] \<Longrightarrow> Suc (length xs - Suc (Suc 0)) < length xs"
  by (cases xs rule: rev_cases) auto

lemma chainFaults_shrinks:
  "chainFaults s fault = Inr (True, s', fault') \<Longrightarrow> length (m_faults s') < length (m_faults s)"
  unfolding chainFaults_def abort_bind_def
  by (auto simp: Let_def length_butlast_twice split: if_splits option.splits sum.splits
      dest!: chainFaultObjects_faults)

lemma checkHandlers_loop_Propagate:
  "checkHandlers_loop func eh i s fault = Inr (Propagate, s', fault') \<Longrightarrow> s' = s \<and> fault' = fault"
proof (induction func eh i s fault rule: checkHandlers_loop.induct)
  case (1 func eh i s fault)
  from "1.prems" "1.IH" show ?case
    by (subst (asm) checkHandlers_loop.simps)
      (auto split: if_splits option.splits EHType.splits simp: Let_def)
qed

text \<open>
  The inner \<^verbatim>\<open>do { ... } while (chainFaults(fault))\<close> of \<^verbatim>\<open>unwindPhp\<close>, for the frame
  \<open>fp\<close>. A \<^verbatim>\<open>continue\<close> in a \<^verbatim>\<open>do ... while\<close> jumps to the test of the loop, so the first
  branch goes on with \<^verbatim>\<open>chainFaults\<close>, as the fall-through of the \<^verbatim>\<open>switch\<close> does.
  The loop ends because every merge shortens the fault vector.
\<close>

function unwindPhp_handlers ::
  "addr \<Rightarrow> VMState \<Rightarrow> Fault \<Rightarrow> abort + (UnwindAction \<times> VMState \<times> Fault)" where
  "unwindPhp_handlers fp s fault =
     (case frames s fp of
        None \<Rightarrow> Inl InvalidPointer
      | Some ar \<Rightarrow>
          if m_pendingException s \<noteq> None \<or> localsDecRefd ar then
            (case chainFaults s fault of
               Inl a \<Rightarrow> Inl a
             | Inr (merged, s', fault') \<Rightarrow>
                 if merged then unwindPhp_handlers fp s' fault'
                 else Inr (Propagate, s', fault'))
          else
            (case findEH (m_func ar) (m_raiseOffset fault) of
               None \<Rightarrow>
                 (case chainFaults s fault of
                    Inl a \<Rightarrow> Inl a
                  | Inr (merged, s', fault') \<Rightarrow>
                      if merged then unwindPhp_handlers fp s' fault'
                      else Inr (Propagate, s', fault'))
             | Some idx \<Rightarrow>
                 (case ehtab_at (m_func ar) (int idx) of
                    None \<Rightarrow> Inl InvalidPointer
                  | Some eh \<Rightarrow>
                      (case checkHandlers eh ar s fault of
                         Inl a \<Rightarrow> Inl a
                       | Inr (ResumeVM, s1, fault1) \<Rightarrow>
                           abort_bind (faults_set_back fault1 s1)
                             (\<lambda>s2. Inr (ResumeVM, s2, fault1))
                       | Inr (Propagate, s1, fault1) \<Rightarrow>
                           (case chainFaults s1 fault1 of
                              Inl a \<Rightarrow> Inl a
                            | Inr (merged, s', fault') \<Rightarrow>
                                if merged then unwindPhp_handlers fp s' fault'
                                else Inr (Propagate, s', fault'))))))"
  by pat_completeness auto

termination
proof (relation "measure (\<lambda>(fp, s, fault). length (m_faults s))")
  show "wf (measure (\<lambda>(fp, s, fault). length (m_faults s)))" by simp
next
  fix fp :: addr and s fault ar x2 merged y s' fault'
  assume "chainFaults s fault = Inr x2" "(merged, y) = x2" "(s', fault') = y" merged
  then have "chainFaults s fault = Inr (True, s', fault')" by auto
  then show "((fp, s', fault'), (fp, s, fault)) \<in> measure (\<lambda>(fp, s, fault). length (m_faults s))"
    by (simp add: chainFaults_shrinks)
next
  fix fp :: addr and s fault ar x2 merged y s' fault'
  assume "chainFaults s fault = Inr x2" "(merged, y) = x2" "(s', fault') = y" merged
  then have "chainFaults s fault = Inr (True, s', fault')" by auto
  then show "((fp, s', fault'), (fp, s, fault)) \<in> measure (\<lambda>(fp, s, fault). length (m_faults s))"
    by (simp add: chainFaults_shrinks)
next
  fix fp :: addr and s fault ar idx eh x2 act y s1 fault1 x2a merged ya s' fault'
  assume "checkHandlers eh ar s fault = Inr x2" "(act, y) = x2" "(s1, fault1) = y"
    "act = Propagate" "chainFaults s1 fault1 = Inr x2a" "(merged, ya) = x2a"
    "(s', fault') = ya" merged
  then have c: "checkHandlers eh ar s fault = Inr (Propagate, s1, fault1)"
    and m: "chainFaults s1 fault1 = Inr (True, s', fault')" by auto
  from c have "s1 = s" unfolding checkHandlers_def by (auto dest: checkHandlers_loop_Propagate)
  with m show "((fp, s', fault'), (fp, s, fault)) \<in> measure (\<lambda>(fp, s, fault). length (m_faults s))"
    by (auto dest: chainFaults_shrinks)
qed

declare unwindPhp_handlers.simps [simp del]

text \<open>
  The block that treats a fault as freshly thrown: it binds the fault to the current
  frame and asks for the temporaries to be discarded. The result is the fault and the
  flag \<^verbatim>\<open>discard\<close>.
\<close>

definition bindFault :: "addr \<Rightarrow> VMState \<Rightarrow> Fault \<Rightarrow> abort + (Fault \<times> bool)" where
  "bindFault fp s fault =
     (if m_raiseOffset fault = kInvalidOffset then
        (if m_raiseNesting fault \<noteq> kInvalidNesting
         then Inl (AssertFailed ''fault.m_raiseNesting == kInvalidNesting'')
         else
           (case vmpc s of
              None \<Rightarrow> Inl InvalidPointer
            | Some pc \<Rightarrow>
                Inr (fault\<lparr>m_raiseNesting := int (m_nestedVMs_size s),
                           m_raiseFrame := Some fp,
                           m_raiseOffset := pc,
                           m_handledCount := 0\<rparr>, True)))
      else Inr (fault, False))"

definition assertBound :: "Fault \<Rightarrow> abort + unit" where
  "assertBound fault =
     (if m_raiseNesting fault = kInvalidNesting
      then Inl (AssertFailed ''fault.m_raiseNesting != kInvalidNesting'')
      else if m_raiseFrame fault = None
      then Inl (AssertFailed ''fault.m_raiseFrame != nullptr'')
      else if m_raiseOffset fault = kInvalidOffset
      then Inl (AssertFailed ''fault.m_raiseOffset != kInvalidOffset'')
      else Inr ())"

text \<open>The fields of the fault that start over for the calling frame.\<close>

definition resetFault :: "Fault \<Rightarrow> Fault" where
  "resetFault fault =
     fault\<lparr>m_raiseNesting := kInvalidNesting, m_raiseFrame := None,
           m_raiseOffset := kInvalidOffset, m_handledCount := 0\<rparr>"

text \<open>
  The outer \<^verbatim>\<open>do { ... } while (fp)\<close> of \<^verbatim>\<open>unwindPhp\<close>, on the driver's own copy of
  the fault. The frames are linked by pointers in the state, so the loop takes fuel, one
  unit for each frame: \<open>None\<close> is a run that the fuel did not cover. The result
  \<open>Inr (None, s)\<close> is a return to the interpreter, \<open>Inr (Some t, s)\<close> is the
  \<^verbatim>\<open>throw_object\<close> that leaves the nesting.
\<close>

fun unwindPhp_loop ::
  "Runtime \<Rightarrow> nat \<Rightarrow> VMState \<Rightarrow> Fault \<Rightarrow> (abort + (Thrown option \<times> VMState)) option" where
  "unwindPhp_loop rt 0 s fault = None"
| "unwindPhp_loop rt (Suc n) s fault =
     (case vmfp s of
        None \<Rightarrow> Some (Inl InvalidPointer)
      | Some fp \<Rightarrow>
     (case bindFault fp s fault of
        Inl a \<Rightarrow> Some (Inl a)
      | Inr (fault1, discard) \<Rightarrow>
     (case assertBound fault1 of
        Inl a \<Rightarrow> Some (Inl a)
      | Inr u \<Rightarrow>
     (case (if discard then discardStackTemps fp (m_raiseOffset fault1) s else Inr s) of
        Inl a \<Rightarrow> Some (Inl a)
      | Inr s1 \<Rightarrow>
     (case unwindPhp_handlers fp s1 fault1 of
        Inl a \<Rightarrow> Some (Inl a)
      | Inr (ResumeVM, s2, fault2) \<Rightarrow> Some (Inr (None, s2))
      | Inr (Propagate, s2, fault2) \<Rightarrow>
     (case tearDownFrame rt s2 (m_userException fault2) of
        Inl a \<Rightarrow> Some (Inl a)
      | Inr (None, s3) \<Rightarrow>
          Some (abort_bind (faults_pop_back s3) (\<lambda>s4. Inr (None, s4)))
      | Inr (Some e, s3) \<Rightarrow>
          (let fault3 = resetFault (fault2\<lparr>m_userException := Some e\<rparr>) in
           case faults_set_back fault3 s3 of
             Inl a \<Rightarrow> Some (Inl a)
           | Inr s4 \<Rightarrow>
               if vmfp s4 \<noteq> None then unwindPhp_loop rt n s4 fault3
               else Some (abort_bind (faults_pop_back s4)
                            (\<lambda>s5. Inr (Some (ThrowObject e), s5))))))))))"

text \<open>\<^verbatim>\<open>unwindPhp()\<close>.\<close>

definition unwindPhp :: "Runtime \<Rightarrow> nat \<Rightarrow> VMState \<Rightarrow> (abort + (Thrown option \<times> VMState)) option" where
  "unwindPhp rt fuel s =
     (if m_faults s = [] then Some (Inl (AssertFailed ''!g_context->m_faults.empty()''))
      else
        (case discardMemberTVRefs s of
           Inl a \<Rightarrow> Some (Inl a)
         | Inr s1 \<Rightarrow> unwindPhp_loop rt fuel s1 (last (m_faults s))))"

text \<open>Modelled from the spec: the constructor of \<^verbatim>\<open>Fault\<close> is outside this file; a new
  fault is unbound and has examined no handler.\<close>

definition newFault :: "addr \<Rightarrow> Fault" where
  "newFault phpException =
     \<lparr>m_userException = Some phpException, m_raiseNesting = kInvalidNesting,
      m_raiseFrame = None, m_raiseOffset = kInvalidOffset, m_handledCount = 0\<rparr>"

text \<open>\<^verbatim>\<open>unwindPhp(ObjectData* phpException)\<close>.\<close>

definition unwindPhp_obj ::
  "Runtime \<Rightarrow> nat \<Rightarrow> addr \<Rightarrow> VMState \<Rightarrow> (abort + (Thrown option \<times> VMState)) option" where
  "unwindPhp_obj rt fuel phpException s =
     unwindPhp rt fuel
       ((log_event (IncRefCount phpException) s)
          \<lparr>m_faults := m_faults s @ [newFault phpException]\<rparr>)"

subsection \<open>Host-exception driver: \<^verbatim>\<open>unwindCpp\<close>\<close>

text \<open>The \<^verbatim>\<open>while\<close> loop that discards the guest exceptions pending for the frame
  \<open>fp\<close>, from the back of the fault vector.\<close>

function discardPendingFaults :: "addr \<Rightarrow> VMState \<Rightarrow> abort + VMState" where
  "discardPendingFaults fp s =
     (if m_faults s \<noteq> [] \<and>
         m_raiseFrame (last (m_faults s)) = Some fp \<and>
         m_raiseNesting (last (m_faults s)) = int (m_nestedVMs_size s)
      then
        (case m_userException (last (m_faults s)) of
           None \<Rightarrow> Inl InvalidPointer
         | Some e \<Rightarrow>
             discardPendingFaults fp
               ((log_event (DecRefObj e) s)\<lparr>m_faults := butlast (m_faults s)\<rparr>))
      else Inr s)"
  by pat_completeness auto

termination
  by (relation "measure (\<lambda>(fp, s). length (m_faults s))") (auto simp: log_event_def)

declare discardPendingFaults.simps [simp del]

text \<open>The \<^verbatim>\<open>do { ... } while (fp)\<close> of \<^verbatim>\<open>unwindCpp\<close>, with fuel as in
  \<open>unwindPhp_loop\<close>.\<close>

fun unwindCpp_loop :: "Runtime \<Rightarrow> nat \<Rightarrow> VMState \<Rightarrow> (abort + VMState) option" where
  "unwindCpp_loop rt 0 s = None"
| "unwindCpp_loop rt (Suc n) s =
     (case vmfp s of
        None \<Rightarrow> Some (Inl InvalidPointer)
      | Some fp \<Rightarrow>
     (case vmpc s of
        None \<Rightarrow> Some (Inl InvalidPointer)
      | Some offset \<Rightarrow>
     (case discardPendingFaults fp s of
        Inl a \<Rightarrow> Some (Inl a)
      | Inr s1 \<Rightarrow>
     (case discardStackTemps fp offset s1 of
        Inl a \<Rightarrow> Some (Inl a)
      | Inr s2 \<Rightarrow>
     (case tearDownFrame rt s2 None of
        Inl a \<Rightarrow> Some (Inl a)
      | Inr (Some e, s3) \<Rightarrow> Some (Inl (AssertFailed ''phpException == nullptr''))
      | Inr (None, s3) \<Rightarrow>
          if vmfp s3 \<noteq> None then unwindCpp_loop rt n s3 else Some (Inr s3))))))"

text \<open>
  \<^verbatim>\<open>unwindCpp(Exception* exception)\<close>. The function is always left by a C++ throw,
  the one of \<^verbatim>\<open>exception->throwException()\<close>; the \<^verbatim>\<open>SCOPE_EXIT\<close> block runs then,
  and the result is the state it leaves with the exception thrown.
\<close>

definition scopeExit_unwindCpp :: "VMState \<Rightarrow> abort + VMState" where
  "scopeExit_unwindCpp s =
     (if \<not> m_unwindingCppException s
      then Inl (AssertFailed ''g_context->m_unwindingCppException'')
      else Inr (s\<lparr>m_unwindingCppException := False\<rparr>))"

definition unwindCpp ::
  "Runtime \<Rightarrow> nat \<Rightarrow> addr \<Rightarrow> VMState \<Rightarrow> (abort + (Thrown \<times> VMState)) option" where
  "unwindCpp rt fuel exception s =
     (if m_unwindingCppException s
      then Some (Inl (AssertFailed ''!g_context->m_unwindingCppException''))
      else
        (case discardMemberTVRefs (s\<lparr>m_unwindingCppException := True\<rparr>) of
           Inl a \<Rightarrow> Some (Inl a)
         | Inr s1 \<Rightarrow>
             (case unwindCpp_loop rt fuel s1 of
                None \<Rightarrow> None
              | Some (Inl a) \<Rightarrow> Some (Inl a)
              | Some (Inr s2) \<Rightarrow>
                  Some (abort_bind (scopeExit_unwindCpp s2)
                          (\<lambda>s3. Inr (ThrowCpp exception, s3))))))"

section \<open>Specification-side definitions\<close>

subsection \<open>Handler Resolver\<close>

text \<open>
  The entry reached from \<open>eh\<close> by \<open>k\<close> steps along \<open>m_parentIndex\<close>: \<open>Inr None\<close> when
  the chain ends before (an entry with parent \<open>-1\<close>), an abort when a parent index
  designates no entry of the table.
\<close>

fun ancestor :: "Func \<Rightarrow> EHEnt \<Rightarrow> nat \<Rightarrow> abort + EHEnt option" where
  "ancestor func eh 0 = Inr (Some eh)"
| "ancestor func eh (Suc k) =
     (if m_parentIndex eh = -1 then Inr None
      else case ehtab_at func (m_parentIndex eh) of
             None \<Rightarrow> Inl InvalidPointer
           | Some eh' \<Rightarrow> ancestor func eh' k)"

text \<open>What entering the handler of the candidate \<open>c\<close> does to the registers and the fault.\<close>

definition enter_handler :: "EHEnt \<Rightarrow> VMState \<Rightarrow> Fault \<Rightarrow> UnwindAction \<times> VMState \<times> Fault" where
  "enter_handler c s fault =
     (ResumeVM, log_event DebuggerHook (s\<lparr>vmpc := Some (m_handler c)\<rparr>),
      fault\<lparr>m_handledCount := m_handledCount fault + 1\<rparr>)"

text \<open>What a result shows to the interpreter: the action, the program counter and the
  fault's \<open>m_handledCount\<close>.\<close>

definition observe ::
  "abort + (UnwindAction \<times> VMState \<times> Fault) \<Rightarrow> abort + (UnwindAction \<times> Offset option \<times> int)" where
  "observe r = map_sum id (\<lambda>(a, s, f). (a, vmpc s, m_handledCount f)) r"

subsection \<open>Frame Tearer\<close>

text \<open>The latch \<^verbatim>\<open>localsDecRefd\<close> of the frame at \<open>fp\<close>, and the number of calls of
  \<^verbatim>\<open>frame_free_locals_unwind\<close> on that frame in the log.\<close>

definition latch :: "addr \<Rightarrow> VMState \<Rightarrow> bool" where
  "latch fp s = (case frames s fp of Some ar \<Rightarrow> localsDecRefd ar | None \<Rightarrow> False)"

definition isRelease :: "addr \<Rightarrow> Event \<Rightarrow> bool" where
  "isRelease fp ev = (case ev of FreeLocalsUnwind a n x \<Rightarrow> a = fp | _ \<Rightarrow> False)"

definition releases :: "addr \<Rightarrow> VMState \<Rightarrow> nat" where
  "releases fp s = length (filter (isRelease fp) (events s))"

text \<open>The latch of the current frame in the state a teardown returns.\<close>

definition latch_after :: "addr \<Rightarrow> abort + (addr option \<times> VMState) \<Rightarrow> bool option" where
  "latch_after fp r = (case r of Inl a \<Rightarrow> None | Inr (e, s) \<Rightarrow> Some (latch fp s))"

text \<open>
  The frames whose locals a teardown with a null exception leaves alone: a resumed async
  function whose wait-handle is not running, and a resumed async generator that is
  neither eagerly executed nor running.
\<close>

definition keepsLocals :: "ActRec \<Rightarrow> addr option \<Rightarrow> bool" where
  "keepsLocals ar phpException =
     (resumed ar \<and> phpException = None \<and>
      (if isAsyncFunction (m_func ar) then \<not> afwh_isRunning ar
       else isAsyncGenerator (m_func ar) \<and> \<not> gen_isEagerlyExecuted ar \<and> \<not> gen_wh_isRunning ar))"

text \<open>Every frame has been released at most once, and only under a set latch.\<close>

definition releasedOnce :: "addr \<Rightarrow> VMState \<Rightarrow> bool" where
  "releasedOnce q s = (releases q s \<le> (if latch q s then 1 else 0))"

text \<open>The four conditions of the constructor guard. The class is the class of the
  receiver, as the code reads it (\<^verbatim>\<open>fp->getThis()->getVMClass()\<close>).\<close>

definition isConstructorWithDtor :: "VMState \<Rightarrow> ActRec \<Rightarrow> bool" where
  "isConstructorWithDtor s ar =
     (cls (m_func ar) \<noteq> None \<and>
      (case m_this ar of
         None \<Rightarrow> False
       | Some this \<Rightarrow>
           (case fmlookup (objs s) this of
              None \<Rightarrow> False
            | Some obj \<Rightarrow>
                getCtor (getVMClass obj) = func_id (m_func ar) \<and>
                getDtor (getVMClass obj) \<noteq> None)))"

definition callerPreparedCtor :: "Runtime \<Rightarrow> VMState \<Rightarrow> addr \<Rightarrow> bool" where
  "callerPreparedCtor rt s fp =
     (case getPrevVMState rt s fp of
        None \<Rightarrow> False
      | Some (outer, prevPc) \<Rightarrow>
          (case frames s outer of
             None \<Rightarrow> False
           | Some outer_ar \<Rightarrow>
               (case findPrecedingFPI (m_func outer_ar) prevPc of
                  None \<Rightarrow> False
                | Some fe \<Rightarrow> isFPushCtor (getOp (m_func outer_ar) (m_fpushOff fe)))))"

definition ctorGuardHolds :: "Runtime \<Rightarrow> VMState \<Rightarrow> addr \<Rightarrow> ActRec \<Rightarrow> Offset \<Rightarrow> bool" where
  "ctorGuardHolds rt s fp ar pc =
     (getOp (m_func ar) pc \<noteq> OpRetC \<and> \<not> localsDecRefd ar \<and>
      isConstructorWithDtor s ar \<and> callerPreparedCtor rt s fp)"

definition isSetNoDestruct :: "Event \<Rightarrow> bool" where
  "isSetNoDestruct ev = (case ev of SetNoDestruct a \<Rightarrow> True | _ \<Rightarrow> False)"

text \<open>
  The third condition as the claim words it: the function is the constructor of the
  class it is declared in (\<open>cls\<close>), it is called on a receiver, and that class has a
  destructor; and the guard with that condition in place of the code's.
\<close>

definition ctorOfOwnClass :: "ActRec \<Rightarrow> bool" where
  "ctorOfOwnClass ar =
     (case cls (m_func ar) of
        None \<Rightarrow> False
      | Some c \<Rightarrow> m_this ar \<noteq> None \<and> getCtor c = func_id (m_func ar) \<and> getDtor c \<noteq> None)"

definition claimedCtorGuard :: "Runtime \<Rightarrow> VMState \<Rightarrow> addr \<Rightarrow> ActRec \<Rightarrow> Offset \<Rightarrow> bool" where
  "claimedCtorGuard rt s fp ar pc =
     (getOp (m_func ar) pc \<noteq> OpRetC \<and> \<not> localsDecRefd ar \<and>
      ctorOfOwnClass ar \<and> callerPreparedCtor rt s fp)"

text \<open>
  Modelled from the spec: what the release of an object does is in \<^verbatim>\<open>object-data.h\<close>.
  The release of a frame's locals releases the frame's receiver too, and the runtime
  invokes the receiver's destructor then, unless the receiver has been marked no-destruct
  before. \<open>unmarkedRelease fp this evs\<close>: the log \<open>evs\<close> has a release of the locals of
  \<open>fp\<close> that no mark of \<open>this\<close> precedes. These are the only calls of a teardown in
  which the destructor of \<open>this\<close> can be invoked.
\<close>

fun unmarkedRelease :: "addr \<Rightarrow> addr \<Rightarrow> Event list \<Rightarrow> bool" where
  "unmarkedRelease fp this [] = False"
| "unmarkedRelease fp this (ev # evs) =
     (if ev = SetNoDestruct this then False
      else isRelease fp ev \<or> unmarkedRelease fp this evs)"

text \<open>The abort of the assertion of \<^verbatim>\<open>unwindCpp\<close> on the result of the teardown.\<close>

definition nullAssert :: abort where
  "nullAssert = AssertFailed ''phpException == nullptr''"

subsection \<open>Frame Tearer: the states a teardown goes through\<close>

text \<open>What a teardown changes besides the stack: the frame's latch and the log.\<close>

definition released :: "addr \<Rightarrow> ActRec \<Rightarrow> addr option \<Rightarrow> VMState \<Rightarrow> VMState" where
  "released fp ar exc s =
     (if localsDecRefd ar \<or> keepsLocals ar exc then s
      else log_event (FreeLocalsUnwind fp (numLocals (m_func ar)) exc) (setLocalsDecRefd fp ar s))"

text \<open>The state after the constructor guard.\<close>

definition guarded :: "Runtime \<Rightarrow> VMState \<Rightarrow> addr \<Rightarrow> ActRec \<Rightarrow> Offset \<Rightarrow> VMState" where
  "guarded rt s fp ar pc =
     (if ctorGuardHolds rt s fp ar pc then log_event (SetNoDestruct (the (m_this ar))) s else s)"

text \<open>What the result of a teardown shows: the exception that goes on, the log and the
  fault vector.\<close>

definition exception_after :: "abort + (addr option \<times> VMState) \<Rightarrow> addr option option" where
  "exception_after r = (case r of Inl a \<Rightarrow> None | Inr (e, s) \<Rightarrow> Some e)"

definition events_after :: "abort + (addr option \<times> VMState) \<Rightarrow> Event list" where
  "events_after r = (case r of Inl a \<Rightarrow> [] | Inr (e, s) \<Rightarrow> events s)"

definition faults_after :: "abort + (addr option \<times> VMState) \<Rightarrow> Fault list option" where
  "faults_after r = (case r of Inl a \<Rightarrow> None | Inr (e, s) \<Rightarrow> Some (m_faults s))"

subsection \<open>Examples\<close>

text \<open>A function with two nested protected regions, the inner one with a Catch handler at
  offset 40 and the outer one with a Fault handler at offset 50; a frame of it at
  address 1; and a fault raised in that frame at offset 20.\<close>

definition ex_eh0 :: EHEnt where
  "ex_eh0 = \<lparr>m_type = EHType_Catch, m_handler = 40, m_parentIndex = 1\<rparr>"

definition ex_eh1 :: EHEnt where
  "ex_eh1 = \<lparr>m_type = EHType_Fault, m_handler = 50, m_parentIndex = -1\<rparr>"

definition ex_func :: Func where
  "ex_func = \<lparr>func_id = 7, numLocals = 2, numSlotsInFrame = 2, numClsRefSlots = 0, base = 0,
     ehtab = [ex_eh0, ex_eh1],
     findEH = (\<lambda>off. if 10 \<le> off \<and> off < 30 then Some 0 else None),
     getOp = (\<lambda>off. if off = 5 then OpFPushCtor else OpOther),
     findPrecedingFPI = (\<lambda>off. if off = 8 then Some \<lparr>m_fpushOff = 5\<rparr> else None),
     isAsyncFunction = False, isAsyncGenerator = False, isNonAsyncGenerator = False,
     cls = None\<rparr>"

definition ex_frame :: ActRec where
  "ex_frame = \<lparr>m_func = ex_func, m_sfp = None, m_soff = 0, m_this = None, resumed = False,
     localsDecRefd = False, isFCallAwait = False, evalBase = 0, frame_afwh = 0,
     afwh_isRunning = False, frame_async_generator = 0, gen_isEagerlyExecuted = False,
     gen_wh_isRunning = False, gen_fail_result = None, frame_generator = 0\<rparr>"

text \<open>A constructor of a class with a destructor, called from \<open>ex_frame\<close> at offset 8
  after a constructor-preparing push at offset 5; its receiver is the object 50.\<close>

definition ex_ctor_func :: Func where
  "ex_ctor_func = ex_func\<lparr>func_id := 8, ehtab := [], findEH := (\<lambda>off. None),
     cls := Some \<lparr>getCtor = 8, getDtor = Some 9\<rparr>\<rparr>"

definition ex_ctor_frame :: ActRec where
  "ex_ctor_frame = ex_frame\<lparr>m_func := ex_ctor_func, m_sfp := Some 1, m_soff := 8,
     m_this := Some 50\<rparr>"

definition ex_object :: ObjectData where
  "ex_object = \<lparr>getVMClass = \<lparr>getCtor = 8, getDtor = Some 9\<rparr>, throwable = False,
     previous = KindOfNull\<rparr>"

text \<open>A resumed async function whose wait-handle is not running.\<close>

definition ex_afwh_frame :: ActRec where
  "ex_afwh_frame = ex_frame\<lparr>m_func := ex_func\<lparr>isAsyncFunction := True\<rparr>, resumed := True\<rparr>"

definition ex_fault :: "int \<Rightarrow> Fault" where
  "ex_fault n = \<lparr>m_userException = Some 100, m_raiseNesting = 0, m_raiseFrame = Some 1,
     m_raiseOffset = 20, m_handledCount = n\<rparr>"

definition ex_state :: "Fault list \<Rightarrow> VMState" where
  "ex_state fs = \<lparr>vmfp = Some 1, vmpc = Some 20, vmStack = [], m_faults = fs,
     m_nestedVMs_size = 0, m_unwindingCppException = False, m_pendingException = None,
     tvRef = KindOfUninit, tvRef2 = KindOfUninit, frames = [1 \<mapsto> ex_frame],
     objs = fmempty, events = [], events_unwindingCpp = []\<rparr>"

definition ex_ctor_state :: VMState where
  "ex_ctor_state = (ex_state [])\<lparr>vmfp := Some 2, vmpc := Some 3,
     frames := [1 \<mapsto> ex_frame, 2 \<mapsto> ex_ctor_frame],
     objs := fmupd 50 ex_object fmempty\<rparr>"

definition ex_afwh_state :: VMState where
  "ex_afwh_state = (ex_state [])\<lparr>frames := [1 \<mapsto> ex_afwh_frame]\<rparr>"

text \<open>The constructor 8 declared in a class that has no destructor and inherited by the
  class of the receiver 50, which has one.\<close>

definition ex_inherited_frame :: ActRec where
  "ex_inherited_frame =
     ex_ctor_frame\<lparr>m_func := ex_ctor_func\<lparr>cls := Some \<lparr>getCtor = 8, getDtor = None\<rparr>\<rparr>\<rparr>"

definition ex_inherited_state :: VMState where
  "ex_inherited_state = ex_ctor_state\<lparr>frames := [1 \<mapsto> ex_frame, 2 \<mapsto> ex_inherited_frame]\<rparr>"

definition ex_rt :: Runtime where
  "ex_rt = \<lparr>getPrevVMState = (\<lambda>s fp. case frames s fp of
                 None \<Rightarrow> None
               | Some ar \<Rightarrow> (case m_sfp ar of None \<Rightarrow> None | Some p \<Rightarrow> Some (p, m_soff ar))),
            release_raises = (\<lambda>s fp. None),
            createFailed = (\<lambda>e. e + 1000)\<rparr>"

definition ex_raising_rt :: Runtime where
  "ex_raising_rt = ex_rt\<lparr>release_raises := (\<lambda>s fp. Some (ThrowObject 200))\<rparr>"

lemmas ex_defs = ex_eh0_def ex_eh1_def ex_func_def ex_frame_def ex_ctor_func_def
  ex_ctor_frame_def ex_object_def ex_afwh_frame_def ex_fault_def ex_state_def
  ex_ctor_state_def ex_afwh_state_def ex_rt_def ex_raising_rt_def

lemmas tear_defs = tearDownFrame_def peek_op_def ctorGuard_def releaseFrame_def
  returnToCaller_def abort_bind_def decRefLocals_def frame_free_locals_unwind_def
  setLocalsDecRefd_def freeActRec_def log_event_def isFPushCtor_def

subsection \<open>Host-exception driver\<close>

text \<open>What a run of the host driver shows: what it throws and the flag it leaves.\<close>

definition thrown_by :: "(abort + (Thrown \<times> VMState)) option \<Rightarrow> Thrown option" where
  "thrown_by r = (case r of Some (Inr (t, s)) \<Rightarrow> Some t | _ \<Rightarrow> None)"

definition flag_after :: "(abort + (Thrown \<times> VMState)) option \<Rightarrow> bool option" where
  "flag_after r = (case r of Some (Inr (t, s)) \<Rightarrow> Some (m_unwindingCppException s) | _ \<Rightarrow> None)"


definition host_events :: "(abort + (Thrown \<times> VMState)) option \<Rightarrow> Event list" where
  "host_events r = (case r of Some (Inr (t, s)) \<Rightarrow> events s | _ \<Rightarrow> [])"

definition host_seen :: "(abort + (Thrown \<times> VMState)) option \<Rightarrow> bool list" where
  "host_seen r = (case r of Some (Inr (t, s)) \<Rightarrow> events_unwindingCpp s | _ \<Rightarrow> [])"

text \<open>A fault record is pinned to the frame \<open>fp\<close> when it was raised in that frame at the
  current nesting.\<close>

definition pinned :: "addr \<Rightarrow> VMState \<Rightarrow> Fault \<Rightarrow> bool" where
  "pinned fp s f = (m_raiseFrame f = Some fp \<and> m_raiseNesting f = int (m_nestedVMs_size s))"


text \<open>The release of the guest exception of a fault record.\<close>

definition releaseOf :: "Fault \<Rightarrow> Event" where
  "releaseOf f = DecRefObj (the (m_userException f))"




subsection \<open>Exception Chainer\<close>

text \<open>
  The \<^verbatim>\<open>previous\<close> link that the chainer follows: from an object to the object in its
  \<^verbatim>\<open>previous\<close> slot, when that is a throwable.
\<close>

definition nxt :: "(addr, ObjectData) fmap \<Rightarrow> addr \<Rightarrow> addr option" where
  "nxt h a =
     (case fmlookup h a of
        None \<Rightarrow> None
      | Some obj \<Rightarrow>
          (case previous obj of
             KindOfObject p \<Rightarrow>
               (case fmlookup h p of
                  None \<Rightarrow> None
                | Some pobj \<Rightarrow> if throwable pobj then Some p else None)
           | _ \<Rightarrow> None))"

definition prev_edges :: "(addr, ObjectData) fmap \<Rightarrow> (addr \<times> addr) set" where
  "prev_edges h = {(a, p). nxt h a = Some p}"

text \<open>The chain of \<open>a\<close> has a cycle: \<open>a\<close> reaches an object that reaches itself.\<close>

definition has_cycle :: "(addr, ObjectData) fmap \<Rightarrow> addr \<Rightarrow> bool" where
  "has_cycle h a = (\<exists>b. (a, b) \<in> (prev_edges h)\<^sup>* \<and> (b, b) \<in> (prev_edges h)\<^sup>+)"

text \<open>The chain of \<open>a\<close> is the finite list \<open>xs\<close>: it ends at an object without a link.\<close>

inductive chain :: "(addr, ObjectData) fmap \<Rightarrow> addr \<Rightarrow> addr list \<Rightarrow> bool" where
  chain_end: "nxt h a = None \<Longrightarrow> chain h a [a]"
| chain_step: "nxt h a = Some b \<Longrightarrow> chain h b xs \<Longrightarrow> chain h a (a # xs)"

text \<open>The chains of \<open>a\<close> and \<open>b\<close> are finite and share no object.\<close>

definition chainable :: "(addr, ObjectData) fmap \<Rightarrow> addr \<Rightarrow> addr \<Rightarrow> bool" where
  "chainable h a b = (\<exists>xs ys. chain h a xs \<and> chain h b ys \<and> set xs \<inter> set ys = {})"

text \<open>The state after the chainer has linked \<open>prev\<close> into the \<^verbatim>\<open>previous\<close> slot of \<open>lv\<close>.\<close>

definition linked :: "addr \<Rightarrow> addr \<Rightarrow> VMState \<Rightarrow> VMState" where
  "linked lv prev s =
     (case fmlookup (objs s) lv of
        None \<Rightarrow> s
      | Some obj \<Rightarrow>
          log_event (TvDecRefGen (previous obj))
            (s\<lparr>objs := fmupd lv (obj\<lparr>previous := KindOfObject prev\<rparr>) (objs s)\<rparr>))"

text \<open>An exception that is its own \<^verbatim>\<open>previous\<close>, and a second exception.\<close>

definition ex_throwable :: "TypedValue \<Rightarrow> ObjectData" where
  "ex_throwable p = \<lparr>getVMClass = \<lparr>getCtor = 8, getDtor = None\<rparr>, throwable = True,
     previous = p\<rparr>"

definition ex_cyclic_state :: VMState where
  "ex_cyclic_state = (ex_state [])\<lparr>objs :=
     fmupd 100 (ex_throwable (KindOfObject 100)) (fmupd 101 (ex_throwable KindOfNull) fmempty)\<rparr>"

definition ex_chain_state :: "Fault list \<Rightarrow> VMState" where
  "ex_chain_state fs = (ex_state fs)\<lparr>objs :=
     fmupd 100 (ex_throwable KindOfNull) (fmupd 101 (ex_throwable KindOfNull) fmempty)\<rparr>"

definition objs_of :: "abort + VMState \<Rightarrow> (addr, ObjectData) fmap" where
  "objs_of r = (case r of Inl a \<Rightarrow> fmempty | Inr s \<Rightarrow> objs s)"

definition previous_of :: "addr \<Rightarrow> (addr, ObjectData) fmap \<Rightarrow> TypedValue option" where
  "previous_of a h = map_option previous (fmlookup h a)"

lemmas chain_defs = chainFaultObjects_def findAcyclicPrev.simps tvSetIgnoreRef_def
  abort_bind_def log_event_def ex_throwable_def ex_cyclic_state_def ex_chain_state_def
  ex_state_def

text \<open>The record immediately beneath the top of the fault vector, if there is one.\<close>

definition beneath :: "VMState \<Rightarrow> Fault option" where
  "beneath s = (case rev (m_faults s) of t # prev # fs \<Rightarrow> Some prev | _ \<Rightarrow> None)"

text \<open>The test of \<^verbatim>\<open>chainFaults\<close>: raised at the same nesting, in the same frame.\<close>

definition matches :: "Fault \<Rightarrow> Fault \<Rightarrow> bool" where
  "matches fault f =
     (m_raiseNesting fault = m_raiseNesting f \<and> m_raiseFrame fault = m_raiseFrame f)"

definition adopt :: "Fault \<Rightarrow> Fault \<Rightarrow> Fault" where
  "adopt fault prev =
     fault\<lparr>m_raiseOffset := m_raiseOffset prev, m_handledCount := m_handledCount prev\<rparr>"

definition merged_of :: "abort + (bool \<times> VMState \<times> Fault) \<Rightarrow> bool option" where
  "merged_of r = (case r of Inl a \<Rightarrow> None | Inr (m, s, f) \<Rightarrow> Some m)"

definition chained_state :: "abort + (bool \<times> VMState \<times> Fault) \<Rightarrow> abort + VMState" where
  "chained_state r = map_sum id (\<lambda>(m, s, f). s) r"

definition chained_fault :: "abort + (bool \<times> VMState \<times> Fault) \<Rightarrow> Fault option" where
  "chained_fault r = (case r of Inl a \<Rightarrow> None | Inr (m, s, f) \<Rightarrow> Some f)"

text \<open>The exception 100 is caught in frame 1 by the handler of its first region and
  raised again at offset 25, and the same for a second exception 101.\<close>

definition ex_reraise :: "addr \<Rightarrow> Fault" where
  "ex_reraise e = \<lparr>m_userException = Some e, m_raiseNesting = 0, m_raiseFrame = Some 1,
     m_raiseOffset = 25, m_handledCount = 0\<rparr>"

subsection \<open>Guest-exception driver\<close>

text \<open>The fault after it has been merged with the records of \<open>run\<close>, the nearest first.\<close>

definition adopt_run :: "Fault \<Rightarrow> Fault list \<Rightarrow> Fault" where
  "adopt_run fault run = (if run = [] then fault else adopt fault (last run))"

text \<open>The test that makes \<^verbatim>\<open>unwindPhp\<close> skip the handler search in a frame.\<close>

definition skipsHandlers :: "VMState \<Rightarrow> addr \<Rightarrow> bool" where
  "skipsHandlers s fp =
     (case frames s fp of
        None \<Rightarrow> False
      | Some ar \<Rightarrow> m_pendingException s \<noteq> None \<or> localsDecRefd ar)"

definition handlers_result ::
  "abort + (UnwindAction \<times> VMState \<times> Fault) \<Rightarrow> (UnwindAction \<times> Fault list \<times> int) option" where
  "handlers_result r =
     (case r of Inl a \<Rightarrow> None | Inr (act, s, f) \<Rightarrow> Some (act, m_faults s, m_handledCount f))"

text \<open>A host exception is pending while frame 1 unwinds the exception 101, raised again
  from the handler that caught the exception 100.\<close>

definition ex_pending_state :: VMState where
  "ex_pending_state =
     (ex_chain_state [ex_fault 1, ex_reraise 101])\<lparr>m_pendingException := Some 77\<rparr>"

text \<open>The state of \<open>ex_pending_state\<close> after the chainer has merged its two faults.\<close>

definition ex_merged_state :: VMState where
  "ex_merged_state =
     (linked 101 100 ex_pending_state)\<lparr>m_faults := [adopt (ex_reraise 101) (ex_fault 1)]\<rparr>"

definition pc_after :: "(abort + (Thrown option \<times> VMState)) option \<Rightarrow> Offset option option" where
  "pc_after r = (case r of Some (Inr (t, s)) \<Rightarrow> Some (vmpc s) | _ \<Rightarrow> None)"

text \<open>The host driver is active (its flag is set) and no host exception is pending on
  the thread, when a guest exception is raised at offset 20 of frame 1.\<close>

definition ex_host_state :: VMState where
  "ex_host_state = (ex_state [ex_fault 0])\<lparr>m_unwindingCppException := True\<rparr>"

text \<open>The chain of calling frames from \<open>fp\<close> (along \<open>m_sfp\<close>) has at most \<open>n\<close> frames.\<close>

fun frames_within :: "(addr \<rightharpoonup> ActRec) \<Rightarrow> addr option \<Rightarrow> nat \<Rightarrow> bool" where
  "frames_within F None n = True"
| "frames_within F (Some fp) 0 = False"
| "frames_within F (Some fp) (Suc n) =
     (case F fp of None \<Rightarrow> True | Some ar \<Rightarrow> frames_within F (m_sfp ar) n)"

definition action_of :: "abort + (UnwindAction \<times> VMState \<times> Fault) \<Rightarrow> UnwindAction option" where
  "action_of r = (case r of Inl a \<Rightarrow> None | Inr (act, s, f) \<Rightarrow> Some act)"

text \<open>
  What \<^verbatim>\<open>unwindPhp\<close> does with the result of the teardown of a frame, which is the rest
  of the turn of its loop: the fault is popped when the exception was consumed; otherwise
  it is reset and written back, and the loop goes on in the calling frame (with the fuel
  \<open>n\<close>) or the exception is rethrown at the last frame of the nesting.
\<close>

definition afterTearDown ::
  "Runtime \<Rightarrow> nat \<Rightarrow> Fault \<Rightarrow> abort + (addr option \<times> VMState) \<Rightarrow>
   (abort + (Thrown option \<times> VMState)) option" where
  "afterTearDown rt n fault2 r =
     (case r of
        Inl a \<Rightarrow> Some (Inl a)
      | Inr (None, s3) \<Rightarrow>
          Some (abort_bind (faults_pop_back s3) (\<lambda>s4. Inr (None, s4)))
      | Inr (Some e, s3) \<Rightarrow>
          (let fault3 = resetFault (fault2\<lparr>m_userException := Some e\<rparr>) in
           case faults_set_back fault3 s3 of
             Inl a \<Rightarrow> Some (Inl a)
           | Inr s4 \<Rightarrow>
               if vmfp s4 \<noteq> None then unwindPhp_loop rt n s4 fault3
               else Some (abort_bind (faults_pop_back s4)
                            (\<lambda>s5. Inr (Some (ThrowObject e), s5)))))"

text \<open>What a run of the guest driver shows: what it throws, the fault vector and the log
  it leaves.\<close>

definition guest_thrown :: "(abort + (Thrown option \<times> VMState)) option \<Rightarrow> Thrown option" where
  "guest_thrown r = (case r of Some (Inr (t, s)) \<Rightarrow> t | _ \<Rightarrow> None)"

definition guest_faults :: "(abort + (Thrown option \<times> VMState)) option \<Rightarrow> Fault list option" where
  "guest_faults r = (case r of Some (Inr (t, s)) \<Rightarrow> Some (m_faults s) | _ \<Rightarrow> None)"

definition guest_events :: "(abort + (Thrown option \<times> VMState)) option \<Rightarrow> Event list" where
  "guest_events r = (case r of Some (Inr (t, s)) \<Rightarrow> events s | _ \<Rightarrow> [])"

text \<open>
  A step from \<open>s\<close> to \<open>s'\<close> is quiet when it enters no handler and leaves the marks of a
  host exception alone: what it logs is appended to the log and holds no hook of a
  handler entry (\<^verbatim>\<open>checkHandlers\<close> calls the hook at every entry), each logged call
  saw the value that \<open>m_unwindingCppException\<close> has in \<open>s\<close>, and the flag and
  \<open>m_pendingException\<close> are unchanged.
\<close>

definition quiet :: "VMState \<Rightarrow> VMState \<Rightarrow> bool" where
  "quiet s s' =
     (m_unwindingCppException s' = m_unwindingCppException s \<and>
      m_pendingException s' = m_pendingException s \<and>
      (\<exists>evs. events s' = events s @ evs \<and> DebuggerHook \<notin> set evs \<and>
         events_unwindingCpp s' =
           events_unwindingCpp s @ replicate (length evs) (m_unwindingCppException s)))"

section \<open>Properties\<close>

subsection \<open>Handler Resolver\<close>

lemma checkHandlers_loop_ancestor:
  "checkHandlers_loop func eh i s fault =
     (case ancestor func eh (nat (m_handledCount fault - i)) of
        Inl a \<Rightarrow> Inl a
      | Inr None \<Rightarrow> Inr (Propagate, s, fault)
      | Inr (Some c) \<Rightarrow> Inr (enter_handler c s fault))"
proof (induction func eh i s fault rule: checkHandlers_loop.induct)
  case (1 func eh i s fault)
  show ?case
  proof (cases "m_handledCount fault \<le> i")
    case True
    then have "nat (m_handledCount fault - i) = 0" by simp
    with True show ?thesis
      by (subst checkHandlers_loop.simps)
        (simp add: enter_handler_def phpDebuggerExceptionHandlerHook_def Let_def
          split: EHType.split)
  next
    case False
    then have k: "nat (m_handledCount fault - i) = Suc (nat (m_handledCount fault - (i + 1)))"
      by simp
    show ?thesis
    proof (cases "m_parentIndex eh = -1")
      case True
      with False k show ?thesis by (subst checkHandlers_loop.simps) simp
    next
      case np: False
      show ?thesis
      proof (cases "ehtab_at func (m_parentIndex eh)")
        case None
        with False np k show ?thesis by (subst checkHandlers_loop.simps) simp
      next
        case (Some eh')
        with False np k "1.IH"[OF False np Some] show ?thesis
          by (subst checkHandlers_loop.simps) simp
      qed
    qed
  qed
qed

lemma ex_ehtab_at_1: "ehtab_at ex_func 1 = Some ex_eh1"
  by (simp add: ehtab_at_def ex_func_def)

lemma ex_parents: "m_parentIndex ex_eh0 = 1" "m_parentIndex ex_eh1 = -1"
  by (simp_all add: ex_eh0_def ex_eh1_def)

lemma ex_ancestor_1: "ancestor ex_func ex_eh0 (Suc 0) = Inr (Some ex_eh1)"
  by (simp add: ex_parents ex_ehtab_at_1)

lemma ex_ancestor_2: "ancestor ex_func ex_eh0 (Suc (Suc 0)) = Inr None"
  by (simp add: ex_parents ex_ehtab_at_1)

text \<open>
  C1, as the claim states it, fails. With \<open>m_handledCount = 1\<close> the entry reached after
  skipping \<open>1 - 1 = 0\<close> entries is the innermost one, whose handler is at 40; the code
  skips one entry and enters the handler of its parent at 50.
\<close>

theorem C1_skip_counterexample:
  "ancestor ex_func ex_eh0 (nat (m_handledCount (ex_fault 1) - 1)) = Inr (Some ex_eh0) \<and>
   m_handler ex_eh0 = 40 \<and>
   observe (checkHandlers ex_eh0 ex_frame (ex_state [ex_fault 1]) (ex_fault 1))
     = Inr (ResumeVM, Some 50, 2)"
proof -
  have a: "nat (m_handledCount (ex_fault 1) - 1) = 0" "nat (m_handledCount (ex_fault 1) - 0) = Suc 0"
    by (simp_all add: ex_fault_def)
  have f: "m_func ex_frame = ex_func" by (simp add: ex_frame_def)
  have "checkHandlers ex_eh0 ex_frame (ex_state [ex_fault 1]) (ex_fault 1)
        = Inr (enter_handler ex_eh1 (ex_state [ex_fault 1]) (ex_fault 1))"
    unfolding checkHandlers_def checkHandlers_loop_ancestor a f ex_ancestor_1
    by simp
  then show ?thesis
    by (simp add: a observe_def enter_handler_def log_event_def ex_eh0_def ex_eh1_def ex_fault_def)
qed

text \<open>
  C1 (amended): for every function, entry \<open>eh\<close> (the innermost entry covering the offset),
  state and fault with \<open>m_handledCount = n\<close>, \<open>checkHandlers\<close> walks the \<open>m_parentIndex\<close>
  chain from \<open>eh\<close> and skips its first \<open>n\<close> entries, the ones considered before. The
  entry after them is the candidate: whether its kind is Catch or Fault, the program
  counter becomes its \<open>m_handler\<close>, \<open>m_handledCount\<close> grows by exactly one and the action
  is \<open>ResumeVM\<close>. If the chain ends within its first \<open>n\<close> entries the action is
  \<open>Propagate\<close>, with the state and the fault (so \<open>m_handledCount\<close>) unchanged.
\<close>

theorem C1_checkHandlers_skips_handled:
  "checkHandlers eh fp s fault =
     (case ancestor (m_func fp) eh (nat (m_handledCount fault)) of
        Inl a \<Rightarrow> Inl a
      | Inr None \<Rightarrow> Inr (Propagate, s, fault)
      | Inr (Some c) \<Rightarrow>
          Inr (ResumeVM, log_event DebuggerHook (s\<lparr>vmpc := Some (m_handler c)\<rparr>),
               fault\<lparr>m_handledCount := m_handledCount fault + 1\<rparr>))"
  unfolding checkHandlers_def checkHandlers_loop_ancestor
  by (simp add: enter_handler_def split: sum.split option.split)

theorem C1_checkHandlers_witness:
  "observe (checkHandlers ex_eh0 ex_frame (ex_state [ex_fault 0]) (ex_fault 0))
     = Inr (ResumeVM, Some 40, 1) \<and>
   checkHandlers ex_eh0 ex_frame (ex_state [ex_fault 2]) (ex_fault 2)
     = Inr (Propagate, ex_state [ex_fault 2], ex_fault 2)"
proof -
  have n: "nat (m_handledCount (ex_fault 0)) = 0" "nat (m_handledCount (ex_fault 2)) = Suc (Suc 0)"
    by (simp_all add: ex_fault_def)
  have f: "m_func ex_frame = ex_func" by (simp add: ex_frame_def)
  show ?thesis
    using C1_checkHandlers_skips_handled [of ex_eh0 ex_frame "ex_state [ex_fault 0]" "ex_fault 0"]
      C1_checkHandlers_skips_handled [of ex_eh0 ex_frame "ex_state [ex_fault 2]" "ex_fault 2"]
    unfolding n f ex_ancestor_2
    by (simp add: observe_def log_event_def ex_eh0_def ex_fault_def)
qed

subsection \<open>Frame Tearer\<close>

lemma tearDownFrame_steps:
  assumes "tearDownFrame rt s exc = Inr (e, s')" "vmfp s = Some fp" "frames s fp = Some ar"
  obtains curOp s1 e2 s2 where
    "peek_op s = Inr curOp"
    "ctorGuard rt fp ar curOp s = Inr s1"
    "releaseFrame rt fp ar exc s1 = Inr (e2, s2)"
    "returnToCaller (m_sfp ar) (m_soff ar) (e2, s2) = Inr (e, s')"
  using assms unfolding tearDownFrame_def abort_bind_def
  by (auto split: sum.splits)

lemma ctorGuard_result:
  assumes "ctorGuard rt fp ar (getOp (m_func ar) pc) s = Inr s1"
  shows "s1 = (if ctorGuardHolds rt s fp ar pc
               then log_event (SetNoDestruct (the (m_this ar))) s else s)"
  using assms
  unfolding ctorGuard_def ctorGuardHolds_def isConstructorWithDtor_def callerPreparedCtor_def
  by (auto split: if_splits option.splits prod.splits)

lemma decRefLocals_result:
  "decRefLocals rt fp func exc s = Inr s' \<Longrightarrow> frames s fp = Some ar \<Longrightarrow>
     s' = (if localsDecRefd ar then s
           else log_event (FreeLocalsUnwind fp (numLocals func) exc) (setLocalsDecRefd fp ar s))"
  unfolding decRefLocals_def frame_free_locals_unwind_def
  by (auto split: option.splits if_splits prod.splits)

lemma returnWaitHandle_result:
  "returnWaitHandle fp func wh s = Inr s' \<Longrightarrow> \<exists>stk. s' = s\<lparr>vmStack := stk\<rparr>"
  unfolding returnWaitHandle_def
  by (auto split: list.splits StackElem.splits if_splits)

lemma releaseFrame_result:
  assumes "releaseFrame rt fp ar exc s = Inr (e, s2)" "frames s fp = Some ar"
  shows "frames s2 = frames (released fp ar exc s)"
    and "m_faults s2 = m_faults s"
    and "take (length (events (released fp ar exc s))) (events s2) = events (released fp ar exc s)"
    and "filter isSetNoDestruct (drop (length (events (released fp ar exc s))) (events s2)) = []"
    and "filter (isRelease q) (drop (length (events (released fp ar exc s))) (events s2)) = []"
    and "\<not> resumed ar \<Longrightarrow> \<not> isAsyncFunction (m_func ar) \<Longrightarrow> e = exc"
  using assms
  unfolding releaseFrame_def abort_bind_def
  by (auto simp: Let_def released_def keepsLocals_def log_event_def setLocalsDecRefd_def
      freeActRec_def isSetNoDestruct_def isRelease_def
      split: if_splits sum.splits option.splits
      dest!: decRefLocals_result[where ar=ar] returnWaitHandle_result)

lemma peek_op_Inr:
  "peek_op s = Inr curOp \<Longrightarrow> vmfp s = Some fp \<Longrightarrow> frames s fp = Some ar \<Longrightarrow>
   \<exists>pc. vmpc s = Some pc \<and> curOp = getOp (m_func ar) pc"
  by (auto simp: peek_op_def split: option.splits)

lemma returnToCaller_result:
  "returnToCaller p soff (e, s) = Inr (e', s') \<Longrightarrow>
   e' = e \<and> frames s' = frames s \<and> events s' = events s \<and> m_faults s' = m_faults s \<and>
   vmfp s' = p"
  unfolding returnToCaller_def by (auto split: option.splits)

lemma guarded_simps:
  "frames (guarded rt s fp ar pc) = frames s"
  "m_faults (guarded rt s fp ar pc) = m_faults s"
  "events (guarded rt s fp ar pc) =
     events s @ (if ctorGuardHolds rt s fp ar pc then [SetNoDestruct (the (m_this ar))] else [])"
  by (simp_all add: guarded_def log_event_def)

lemma released_simps:
  "frames (released fp ar exc s) =
     (if localsDecRefd ar \<or> keepsLocals ar exc then frames s
      else (frames s)(fp \<mapsto> ar\<lparr>localsDecRefd := True\<rparr>))"
  "events (released fp ar exc s) =
     events s @ (if localsDecRefd ar \<or> keepsLocals ar exc then []
                 else [FreeLocalsUnwind fp (numLocals (m_func ar)) exc])"
  by (simp_all add: released_def log_event_def setLocalsDecRefd_def)

lemma tearDownFrame_result:
  assumes td: "tearDownFrame rt s exc = Inr (e, s')"
    and fp: "vmfp s = Some fp" and ar: "frames s fp = Some ar"
  obtains pc rest where
    "vmpc s = Some pc"
    "frames s' = frames (released fp ar exc s)"
    "m_faults s' = m_faults s"
    "events s' = events (released fp ar exc (guarded rt s fp ar pc)) @ rest"
    "filter isSetNoDestruct rest = []"
    "\<And>q. filter (isRelease q) rest = []"
    "\<not> resumed ar \<and> \<not> isAsyncFunction (m_func ar) \<longrightarrow> e = exc"
    "vmfp s' = m_sfp ar"
proof -
  from td fp ar obtain curOp s1 e2 s2 where
    p: "peek_op s = Inr curOp" and g: "ctorGuard rt fp ar curOp s = Inr s1"
    and r: "releaseFrame rt fp ar exc s1 = Inr (e2, s2)"
    and c: "returnToCaller (m_sfp ar) (m_soff ar) (e2, s2) = Inr (e, s')"
    by (rule tearDownFrame_steps)
  from peek_op_Inr[OF p fp ar] obtain pc where pc: "vmpc s = Some pc"
    and op: "curOp = getOp (m_func ar) pc" by blast
  from g op have s1: "s1 = guarded rt s fp ar pc"
    by (simp add: guarded_def ctorGuard_result)
  then have ar1: "frames s1 fp = Some ar" using ar by (simp add: guarded_simps)
  note rf = releaseFrame_result[OF r ar1]
  from returnToCaller_result[OF c] have c': "e = e2" "frames s' = frames s2"
    "events s' = events s2" "m_faults s' = m_faults s2" "vmfp s' = m_sfp ar" by auto
  let ?rel = "released fp ar exc s1"
  let ?rest = "drop (length (events ?rel)) (events s2)"
  have ev: "events s2 = events ?rel @ ?rest"
    using rf(3) by (metis append_take_drop_id)
  show thesis
  proof (rule that[of pc ?rest])
    show "vmpc s = Some pc" by (rule pc)
    show "frames s' = frames (released fp ar exc s)"
      using rf(1) c'(2) s1 by (simp add: released_simps guarded_simps)
    show "m_faults s' = m_faults s" using rf(2) c'(4) s1 by (simp add: guarded_simps)
    show "events s' = events (released fp ar exc (guarded rt s fp ar pc)) @ ?rest"
      using ev c'(3) s1 by simp
    show "filter isSetNoDestruct ?rest = []" by (rule rf(4))
    show "\<And>q. filter (isRelease q) ?rest = []" by (rule rf(5))
    show "\<not> resumed ar \<and> \<not> isAsyncFunction (m_func ar) \<longrightarrow> e = exc"
      using rf(6) c'(1) by simp
    show "vmfp s' = m_sfp ar" by (rule c'(5))
  qed
qed

lemma ex_afwh_run:
  "tearDownFrame ex_rt ex_afwh_state None = Inr (None, ex_afwh_state\<lparr>vmpc := None, vmfp := None\<rparr>)"
  by (simp add: tear_defs ex_defs)

text \<open>
  C2, as the claim states it, fails: the latch is not set on exit for every kind of
  frame. A resumed async function whose wait-handle is not running, torn down with a
  null exception, is left as it is: \<open>tearDownFrame\<close> returns and the latch of the frame
  is still clear.
\<close>

theorem C2_latch_counterexample:
  "vmfp ex_afwh_state = Some 1 \<and>
   latch_after 1 (tearDownFrame ex_rt ex_afwh_state None) = Some False"
  by (simp add: ex_afwh_run latch_after_def latch_def) (simp add: ex_defs)

lemma ex_ctor_run:
  "\<exists>s'. tearDownFrame ex_rt ex_ctor_state (Some 100) = Inr (Some 100, s')"
  by (simp add: tear_defs ex_defs)

lemma ex_ctor_raising_run:
  "\<exists>s'. tearDownFrame ex_raising_rt ex_ctor_state (Some 100) = Inr (Some 100, s')"
  by (simp add: tear_defs ex_defs)

lemma filter_release_guarded:
  "filter (isRelease q) (events (released fp ar exc (guarded rt s fp ar pc))) =
   filter (isRelease q) (events s) @
     (if q = fp \<and> \<not> (localsDecRefd ar \<or> keepsLocals ar exc)
      then [FreeLocalsUnwind fp (numLocals (m_func ar)) exc] else [])"
  by (simp add: released_simps guarded_simps isRelease_def)

text \<open>
  C2 (amended): when \<open>tearDownFrame\<close> returns, the latch \<open>localsDecRefd\<close> of the frame it
  tore down is set, except for the frames of \<open>keepsLocals\<close> (a resumed async function
  whose wait-handle is not running and a resumed async generator that is neither eagerly
  executed nor running, torn down with a null exception), whose latch stays as it was.
  The teardown calls \<^verbatim>\<open>frame_free_locals_unwind\<close> on the frame once if the latch was
  clear and the frame is not one of these, and not at all otherwise; and for every frame
  \<open>q\<close>, if \<open>q\<close> was released at most once, and only under a set latch, before the
  teardown, the same holds after it: no frame is released twice.
\<close>

theorem C2_latch_and_single_release:
  assumes "tearDownFrame rt s exc = Inr (e, s')" and "vmfp s = Some fp"
    and "frames s fp = Some ar"
  shows "latch fp s' = (latch fp s \<or> \<not> keepsLocals ar exc) \<and>
         releases fp s' = releases fp s + (if latch fp s \<or> keepsLocals ar exc then 0 else 1) \<and>
         (releasedOnce q s \<longrightarrow> releasedOnce q s')"
proof -
  from assms obtain pc rest where
    fr: "frames s' = frames (released fp ar exc s)"
    and ev: "events s' = events (released fp ar exc (guarded rt s fp ar pc)) @ rest"
    and nr: "\<And>q. filter (isRelease q) rest = []"
    by (rule tearDownFrame_result) blast
  have l: "latch fp s = localsDecRefd ar" using assms(3) by (simp add: latch_def)
  have l': "latch fp s' = (latch fp s \<or> \<not> keepsLocals ar exc)"
    using fr assms(3) by (auto simp: latch_def released_simps)
  have r: "\<And>q. releases q s' =
      releases q s + (if q = fp \<and> \<not> (latch fp s \<or> keepsLocals ar exc) then 1 else 0)"
    unfolding releases_def ev l by (simp add: nr filter_release_guarded)
  have other: "\<And>q. q \<noteq> fp \<Longrightarrow> latch q s' = latch q s"
    using fr by (simp add: latch_def released_simps)
  have "releasedOnce q s \<longrightarrow> releasedOnce q s'"
  proof (cases "q = fp")
    case True
    then show ?thesis unfolding releasedOnce_def using r[of fp] l' by auto
  next
    case False
    then show ?thesis unfolding releasedOnce_def using r[of q] other[of q] by simp
  qed
  with l' r[of fp] show ?thesis by simp
qed

text \<open>The constructor frame of the example is torn down with a guest exception: its latch
  is set on exit and its locals have been released once.\<close>

theorem C2_witness:
  "\<not> keepsLocals ex_ctor_frame (Some 100) \<and> \<not> latch 2 ex_ctor_state \<and>
   releasedOnce 2 ex_ctor_state \<and>
   (\<exists>s'. tearDownFrame ex_rt ex_ctor_state (Some 100) = Inr (Some 100, s') \<and>
         latch 2 s' \<and> releases 2 s' = 1 \<and> releasedOnce 2 s')"
proof -
  from ex_ctor_run obtain s' where
    run: "tearDownFrame ex_rt ex_ctor_state (Some 100) = Inr (Some 100, s')" ..
  have fp: "vmfp ex_ctor_state = Some 2" and ar: "frames ex_ctor_state 2 = Some ex_ctor_frame"
    by (simp_all add: ex_defs)
  have k: "\<not> keepsLocals ex_ctor_frame (Some 100)"
    by (simp add: keepsLocals_def ex_defs)
  have l: "\<not> latch 2 ex_ctor_state" and r: "releases 2 ex_ctor_state = 0"
    by (simp_all add: latch_def releases_def ex_defs)
  then have o: "releasedOnce 2 ex_ctor_state" by (simp add: releasedOnce_def)
  from C2_latch_and_single_release[OF run fp ar, of 2] k l r o
  have "latch 2 s' \<and> releases 2 s' = 1 \<and> releasedOnce 2 s'" by simp
  with run k l o show ?thesis by blast
qed

lemma unmarkedRelease_none:
  "filter (isRelease fp) evs = [] \<Longrightarrow> \<not> unmarkedRelease fp this evs"
  by (induction evs) (auto split: if_splits)

lemma ex_inherited_run:
  "\<exists>s'. tearDownFrame ex_rt ex_inherited_state (Some 100) = Inr (Some 100, s') \<and>
        take 1 (events s') = [SetNoDestruct 50]"
  by (simp add: tear_defs ex_defs ex_inherited_state_def ex_inherited_frame_def offset_add_def)

text \<open>
  C6, as the claim states it, fails: the class whose constructor and destructor the
  guard reads is the class of the receiver (\<^verbatim>\<open>fp->getThis()->getVMClass()\<close>), not
  the class of the function. The constructor 8 is declared in a class without a
  destructor and inherited by the class of the receiver 50, which has one: the guard of
  the claim does not hold, and the teardown marks the receiver all the same.
\<close>

theorem C6_inherited_ctor_counterexample:
  "vmfp ex_inherited_state = Some 2 \<and> vmpc ex_inherited_state = Some 3 \<and>
   frames ex_inherited_state 2 = Some ex_inherited_frame \<and>
   \<not> claimedCtorGuard ex_rt ex_inherited_state 2 ex_inherited_frame 3 \<and>
   take 1 (events_after (tearDownFrame ex_rt ex_inherited_state (Some 100))) = [SetNoDestruct 50]"
proof -
  from ex_inherited_run obtain s' where
    "tearDownFrame ex_rt ex_inherited_state (Some 100) = Inr (Some 100, s')"
    "take 1 (events s') = [SetNoDestruct 50]" by blast
  then show ?thesis
    by (simp add: events_after_def claimedCtorGuard_def ctorOfOwnClass_def
        ex_inherited_state_def ex_inherited_frame_def ex_defs)
qed

text \<open>
  C6 (amended): a teardown that returns appends to the log first the mark
  \<^verbatim>\<open>setNoDestruct\<close> on the frame's receiver, if and only if the four conditions of
  \<open>ctorGuardHolds\<close> hold (the opcode at the program counter is not \<^verbatim>\<open>RetC\<close>, the latch
  is clear, the function belongs to a class and is the constructor of the receiver's
  class and that class has a destructor, and the caller's preceding FPI region starts
  with a constructor-preparing push); then the release of the locals, if the latch was
  clear and the frame is not one of \<open>keepsLocals\<close>; then the rest of its calls, none of
  which is a mark or a release of this frame. So the teardown releases the receiver in
  a call in which its destructor can be invoked (no mark precedes the release) exactly
  when it releases the locals and the guard does not hold: when the guard holds, the
  destructor is not invoked. For a frame that is neither resumed nor of an async
  function, as a constructor's is, the exception comes back unchanged with the registers
  at the calling frame: the caller observes it.
\<close>

theorem C6_ctor_guard:
  assumes "tearDownFrame rt s exc = Inr (e, s')" and "vmfp s = Some fp"
    and "frames s fp = Some ar" and "vmpc s = Some pc"
  shows "\<exists>rest. events s' =
            events s @
            (if ctorGuardHolds rt s fp ar pc then [SetNoDestruct (the (m_this ar))] else []) @
            (if localsDecRefd ar \<or> keepsLocals ar exc then []
             else [FreeLocalsUnwind fp (numLocals (m_func ar)) exc]) @
            rest \<and>
          filter isSetNoDestruct rest = [] \<and> filter (isRelease fp) rest = [] \<and>
          unmarkedRelease fp (the (m_this ar)) (drop (length (events s)) (events s')) =
            (\<not> ctorGuardHolds rt s fp ar pc \<and> \<not> (localsDecRefd ar \<or> keepsLocals ar exc)) \<and>
          (\<not> resumed ar \<and> \<not> isAsyncFunction (m_func ar) \<longrightarrow> e = exc \<and> vmfp s' = m_sfp ar)"
proof -
  from assms(1-3) obtain pc' rest where
    pc': "vmpc s = Some pc'"
    and ev: "events s' = events (released fp ar exc (guarded rt s fp ar pc')) @ rest"
    and nd: "filter isSetNoDestruct rest = []"
    and nr: "filter (isRelease fp) rest = []"
    and ex: "\<not> resumed ar \<and> \<not> isAsyncFunction (m_func ar) \<longrightarrow> e = exc"
    and caller: "vmfp s' = m_sfp ar"
    by (rule tearDownFrame_result) blast
  from pc' assms(4) have [simp]: "pc' = pc" by simp
  let ?mark = "if ctorGuardHolds rt s fp ar pc then [SetNoDestruct (the (m_this ar))] else []"
  let ?rel = "if localsDecRefd ar \<or> keepsLocals ar exc then []
              else [FreeLocalsUnwind fp (numLocals (m_func ar)) exc]"
  have e: "events s' = events s @ ?mark @ ?rel @ rest"
    using ev by (simp add: released_simps guarded_simps)
  then have d: "drop (length (events s)) (events s') = ?mark @ ?rel @ rest" by simp
  have "unmarkedRelease fp (the (m_this ar)) (?mark @ ?rel @ rest) =
          (\<not> ctorGuardHolds rt s fp ar pc \<and> \<not> (localsDecRefd ar \<or> keepsLocals ar exc))"
    using unmarkedRelease_none[OF nr, of "the (m_this ar)"]
    by (simp add: isRelease_def)
  with d e nd nr ex caller show ?thesis by metis
qed

lemma ex_ctor_guard: "ctorGuardHolds ex_rt ex_ctor_state 2 ex_ctor_frame 3"
  by (simp add: ctorGuardHolds_def isConstructorWithDtor_def callerPreparedCtor_def
      isFPushCtor_def ex_defs)

text \<open>The constructor of the example raises the exception 100 at offset 3: the receiver 50
  is marked first, the locals are released next, the destructor cannot be invoked and the
  exception reaches the caller.\<close>

theorem C6_witness:
  "ctorGuardHolds ex_rt ex_ctor_state 2 ex_ctor_frame 3 \<and>
   take 2 (events_after (tearDownFrame ex_rt ex_ctor_state (Some 100)))
     = [SetNoDestruct 50, FreeLocalsUnwind 2 2 (Some 100)] \<and>
   \<not> unmarkedRelease 2 50 (events_after (tearDownFrame ex_rt ex_ctor_state (Some 100))) \<and>
   exception_after (tearDownFrame ex_rt ex_ctor_state (Some 100)) = Some (Some 100)"
proof -
  from ex_ctor_run obtain s' where
    run: "tearDownFrame ex_rt ex_ctor_state (Some 100) = Inr (Some 100, s')" ..
  have fp: "vmfp ex_ctor_state = Some 2" and ar: "frames ex_ctor_state 2 = Some ex_ctor_frame"
    and pc: "vmpc ex_ctor_state = Some 3" and ev: "events ex_ctor_state = []"
    and this: "m_this ex_ctor_frame = Some 50"
    and l: "\<not> localsDecRefd ex_ctor_frame" "\<not> keepsLocals ex_ctor_frame (Some 100)"
    and n: "numLocals (m_func ex_ctor_frame) = 2"
    by (simp_all add: ex_defs keepsLocals_def)
  from C6_ctor_guard[OF run fp ar pc] ex_ctor_guard ev this l n
  obtain rest where "events s' = SetNoDestruct 50 # FreeLocalsUnwind 2 2 (Some 100) # rest"
    "\<not> unmarkedRelease 2 50 (events s')" by auto
  with run ex_ctor_guard show ?thesis by (simp add: events_after_def exception_after_def)
qed

lemma decRefLocals_raises:
  "decRefLocals (rt\<lparr>release_raises := raises\<rparr>) fp func exc s = decRefLocals rt fp func exc s"
  unfolding decRefLocals_def frame_free_locals_unwind_def
  by (simp split: option.splits)

lemma releaseFrame_raises:
  "releaseFrame (rt\<lparr>release_raises := raises\<rparr>) fp ar exc s = releaseFrame rt fp ar exc s"
  unfolding releaseFrame_def decRefLocals_raises
  by (simp add: Let_def cong: if_cong)

lemma ctorGuard_raises:
  "ctorGuard (rt\<lparr>release_raises := raises\<rparr>) fp ar curOp s = ctorGuard rt fp ar curOp s"
  unfolding ctorGuard_def by (simp cong: if_cong option.case_cong)

lemma tearDownFrame_raises:
  "tearDownFrame (rt\<lparr>release_raises := raises\<rparr>) s exc = tearDownFrame rt s exc"
  unfolding tearDownFrame_def releaseFrame_raises ctorGuard_raises ..

text \<open>
  C7: whatever \<^verbatim>\<open>frame_free_locals_unwind\<close> raises (\<open>raises\<close>, for each state and
  frame), the teardown gives the result it gives when the release returns normally: the
  same exception to propagate and the same state, or the same abort. A teardown that
  returns leaves the fault vector as it was: what the destructor raised is no new fault.
\<close>

theorem C7_destructor_raise_swallowed:
  "tearDownFrame (rt\<lparr>release_raises := raises\<rparr>) s exc =
     tearDownFrame (rt\<lparr>release_raises := (\<lambda>s fp. None)\<rparr>) s exc \<and>
   (case tearDownFrame (rt\<lparr>release_raises := raises\<rparr>) s exc of
      Inl a \<Rightarrow> True
    | Inr (e, s') \<Rightarrow> m_faults s' = m_faults s)"
proof -
  have "m_faults s' = m_faults s" if "tearDownFrame rt s exc = Inr (e, s')" for e s'
  proof -
    from that obtain fp ar where "vmfp s = Some fp" "frames s fp = Some ar"
      unfolding tearDownFrame_def by (auto split: option.splits)
    with that show ?thesis by (rule tearDownFrame_result)
  qed
  then show ?thesis
    by (auto simp: tearDownFrame_raises split: sum.splits)
qed

text \<open>A destructor that raises the guest exception 200 while the constructor frame of the
  example is released.\<close>

theorem C7_witness:
  "release_raises ex_raising_rt ex_ctor_state 2 = Some (ThrowObject 200) \<and>
   tearDownFrame ex_raising_rt ex_ctor_state (Some 100) =
     tearDownFrame ex_rt ex_ctor_state (Some 100) \<and>
   faults_after (tearDownFrame ex_raising_rt ex_ctor_state (Some 100)) = Some []"
proof -
  have rt: "ex_raising_rt = ex_rt\<lparr>release_raises := (\<lambda>s fp. Some (ThrowObject 200))\<rparr>"
    and rt0: "ex_rt = ex_rt\<lparr>release_raises := (\<lambda>s fp. None)\<rparr>"
    by (simp_all add: ex_raising_rt_def ex_rt_def)
  from ex_ctor_raising_run obtain s' where
    run: "tearDownFrame ex_raising_rt ex_ctor_state (Some 100) = Inr (Some 100, s')" ..
  have f: "m_faults ex_ctor_state = []" by (simp add: ex_defs)
  note c7 = C7_destructor_raise_swallowed[where rt = ex_rt
      and raises = "\<lambda>s fp. Some (ThrowObject 200)" and s = ex_ctor_state and exc = "Some 100",
      folded rt rt0]
  from c7 have eq: "tearDownFrame ex_raising_rt ex_ctor_state (Some 100) =
      tearDownFrame ex_rt ex_ctor_state (Some 100)" by simp
  from c7 run have "m_faults s' = m_faults ex_ctor_state" by simp
  with f run have "faults_after (tearDownFrame ex_raising_rt ex_ctor_state (Some 100)) = Some []"
    by (simp add: faults_after_def)
  moreover have "release_raises ex_raising_rt ex_ctor_state 2 = Some (ThrowObject 200)"
    by (simp add: ex_raising_rt_def)
  ultimately show ?thesis using eq by simp
qed

lemma visitStackElems_abort:
  "visitStackElems func n s = Inl a \<Longrightarrow> a \<noteq> nullAssert"
  by (induction func n s rule: visitStackElems.induct)
    (auto simp: nullAssert_def split: list.splits StackElem.splits option.splits if_splits)

lemma discardStackTemps_abort:
  "discardStackTemps fp off s = Inl a \<Longrightarrow> a \<noteq> nullAssert"
  unfolding discardStackTemps_def abort_bind_def
  by (auto split: option.splits sum.splits dest: visitStackElems_abort simp: nullAssert_def)

lemma discardPendingFaults_abort:
  "discardPendingFaults fp s = Inl a \<Longrightarrow> a = InvalidPointer"
proof (induction fp s rule: discardPendingFaults.induct)
  case (1 fp s)
  from "1.prems" "1.IH" show ?case
    by (subst (asm) discardPendingFaults.simps) (auto split: if_splits option.splits)
qed

lemma peek_op_abort: "peek_op s = Inl a \<Longrightarrow> a = InvalidPointer"
  unfolding peek_op_def by (auto split: option.splits)

lemma discardMemberTVRefs_abort: "discardMemberTVRefs s = Inl a \<Longrightarrow> a = InvalidPointer"
  unfolding discardMemberTVRefs_def abort_bind_def
  by (auto split: sum.splits if_splits dest: peek_op_abort simp: Let_def)

lemma decRefLocals_abort: "decRefLocals rt fp func exc s = Inl a \<Longrightarrow> a = InvalidPointer"
  unfolding decRefLocals_def frame_free_locals_unwind_def
  by (auto split: option.splits if_splits prod.splits)

lemma ctorGuard_abort: "ctorGuard rt fp ar curOp s = Inl a \<Longrightarrow> a = InvalidPointer"
  unfolding ctorGuard_def by (auto split: option.splits if_splits prod.splits)

lemma returnWaitHandle_abort:
  "returnWaitHandle fp func wh s = Inl a \<Longrightarrow> a \<noteq> nullAssert"
  unfolding returnWaitHandle_def
  by (auto split: list.splits StackElem.splits if_splits simp: nullAssert_def)

lemma releaseFrame_abort: "releaseFrame rt fp ar exc s = Inl a \<Longrightarrow> a \<noteq> nullAssert"
  unfolding releaseFrame_def abort_bind_def
  by (auto simp: Let_def nullAssert_def split: if_splits sum.splits option.splits
      dest: decRefLocals_abort returnWaitHandle_abort[unfolded nullAssert_def])

lemma returnToCaller_abort: "returnToCaller p soff r = Inl a \<Longrightarrow> a = InvalidPointer"
  unfolding returnToCaller_def by (auto split: option.splits prod.splits)

lemma tearDownFrame_abort: "tearDownFrame rt s exc = Inl a \<Longrightarrow> a \<noteq> nullAssert"
  unfolding tearDownFrame_def abort_bind_def
  by (auto split: option.splits sum.splits simp: nullAssert_def
      dest: peek_op_abort ctorGuard_abort releaseFrame_abort[unfolded nullAssert_def]
        returnToCaller_abort)

lemma releaseFrame_None: "releaseFrame rt fp ar None s = Inr (e, s') \<Longrightarrow> e = None"
  unfolding releaseFrame_def abort_bind_def
  by (auto simp: Let_def split: if_splits sum.splits option.splits)

lemma tearDownFrame_None: "tearDownFrame rt s None = Inr (e, s') \<Longrightarrow> e = None"
  unfolding tearDownFrame_def abort_bind_def
  by (auto split: option.splits sum.splits dest!: releaseFrame_None returnToCaller_result)

lemma not_nullAssert [simp]:
  "visitStackElems func n s \<noteq> Inl nullAssert"
  "discardStackTemps fp off s \<noteq> Inl nullAssert"
  "discardPendingFaults fp s \<noteq> Inl nullAssert"
  "discardMemberTVRefs s \<noteq> Inl nullAssert"
  "tearDownFrame rt s exc \<noteq> Inl nullAssert"
  using visitStackElems_abort[of func n s nullAssert]
    discardStackTemps_abort[of fp off s nullAssert]
    discardPendingFaults_abort[of fp s nullAssert]
    discardMemberTVRefs_abort[of s nullAssert]
    tearDownFrame_abort[of rt s exc nullAssert]
  by (auto simp: nullAssert_def)

lemma tearDownFrame_None_Some [simp]: "tearDownFrame rt s None \<noteq> Inr (Some e, s')"
  using tearDownFrame_None[of rt s "Some e" s'] by auto

lemma unwindCpp_loop_not_nullAssert: "unwindCpp_loop rt fuel s \<noteq> Some (Inl nullAssert)"
proof (induction fuel arbitrary: s)
  case 0
  show ?case by simp
next
  case (Suc n)
  have ip: "InvalidPointer \<noteq> nullAssert" by (simp add: nullAssert_def)
  show ?case
    using Suc.IH ip by (auto split: option.splits sum.splits)
qed

lemma unwindCpp_not_nullAssert: "unwindCpp rt fuel exception s \<noteq> Some (Inl nullAssert)"
proof -
  have ip: "AssertFailed ''!g_context->m_unwindingCppException'' \<noteq> nullAssert"
    "AssertFailed ''g_context->m_unwindingCppException'' \<noteq> nullAssert"
    by (simp_all add: nullAssert_def)
  show ?thesis
    unfolding unwindCpp_def scopeExit_unwindCpp_def abort_bind_def
    using ip unwindCpp_loop_not_nullAssert[of rt fuel]
    by (auto split: sum.splits option.splits)
qed

text \<open>
  C9: for every state, \<open>tearDownFrame\<close> called with a null exception returns, if it
  returns, a null exception; it never stops on the assertion of \<^verbatim>\<open>unwindCpp\<close> either.
  So no run of the loop of \<^verbatim>\<open>unwindCpp\<close>, and no run of \<^verbatim>\<open>unwindCpp\<close>, ends by the
  abort of \<^verbatim>\<open>assertx(phpException == nullptr)\<close>, whatever the fuel.
\<close>

theorem C9_null_teardown_returns_null:
  "(case tearDownFrame rt s None of Inl a \<Rightarrow> a \<noteq> nullAssert | Inr (e, s') \<Rightarrow> e = None) \<and>
   unwindCpp_loop rt fuel s \<noteq> Some (Inl nullAssert) \<and>
   unwindCpp rt fuel exception s \<noteq> Some (Inl nullAssert)"
  using tearDownFrame_None[of rt s]
  by (auto simp: unwindCpp_loop_not_nullAssert unwindCpp_not_nullAssert split: sum.splits)

lemma ex_unwindCpp_run:
  "\<exists>s'. unwindCpp ex_rt 2 9 ex_ctor_state = Some (Inr (ThrowCpp 9, s'))"
  by (simp add: unwindCpp_def numeral_2_eq_2 discardMemberTVRefs_def
      discardPendingFaults.simps discardStackTemps_def trashClsRefSlots_def
      scopeExit_unwindCpp_def isMemberDimOp_def isMemberFinalOp_def tear_defs ex_defs)

text \<open>The teardown of the example's async frame returns a null exception, and the host
  driver unwinds the constructor frame and its caller and rethrows the host exception.\<close>

theorem C9_witness:
  "exception_after (tearDownFrame ex_rt ex_afwh_state None) = Some None \<and>
   thrown_by (unwindCpp ex_rt 2 9 ex_ctor_state) = Some (ThrowCpp 9)"
  using C9_null_teardown_returns_null[of ex_rt ex_afwh_state 2 9] ex_unwindCpp_run
  by (auto simp: exception_after_def thrown_by_def ex_afwh_run)

subsection \<open>Host-exception driver: pending faults\<close>

lemma pinned_log [simp]: "pinned fp ((log_event e s)\<lparr>m_faults := fs\<rparr>) = pinned fp s"
  by (simp add: pinned_def log_event_def fun_eq_iff)

lemma discardPendingFaults_result:
  "discardPendingFaults fp s = Inr s' \<Longrightarrow>
   s' = s\<lparr>m_faults := rev (dropWhile (pinned fp s) (rev (m_faults s))),
          events := events s @ map releaseOf (takeWhile (pinned fp s) (rev (m_faults s))),
          events_unwindingCpp := events_unwindingCpp s @
            replicate (length (takeWhile (pinned fp s) (rev (m_faults s))))
              (m_unwindingCppException s)\<rparr>"
proof (induction fp s rule: discardPendingFaults.induct)
  case (1 fp s)
  show ?case
  proof (cases "m_faults s \<noteq> [] \<and> pinned fp s (last (m_faults s))")
    case False
    with "1.prems" have "s' = s"
      by (subst (asm) discardPendingFaults.simps) (auto simp: pinned_def)
    moreover from False have "dropWhile (pinned fp s) (rev (m_faults s)) = rev (m_faults s)"
      "takeWhile (pinned fp s) (rev (m_faults s)) = []"
      by (cases "m_faults s" rule: rev_cases; simp)+
    ultimately show ?thesis by simp
  next
    case True
    then obtain fs f where fs: "m_faults s = fs @ [f]" and pf: "pinned fp s f"
      by (cases "m_faults s" rule: rev_cases) auto
    from "1.prems" True fs obtain e where e: "m_userException f = Some e"
      and rec: "discardPendingFaults fp ((log_event (DecRefObj e) s)\<lparr>m_faults := fs\<rparr>) = Inr s'"
      by (subst (asm) discardPendingFaults.simps) (auto simp: pinned_def split: option.splits)
    have cond: "m_faults s \<noteq> [] \<and> m_raiseFrame (last (m_faults s)) = Some fp \<and>
        m_raiseNesting (last (m_faults s)) = int (m_nestedVMs_size s)"
      using True by (simp add: pinned_def)
    from "1.IH"[OF cond] e fs rec
    have "s' = ((log_event (DecRefObj e) s)\<lparr>m_faults := fs\<rparr>)
        \<lparr>m_faults := rev (dropWhile (pinned fp s) (rev fs)),
         events := events ((log_event (DecRefObj e) s)\<lparr>m_faults := fs\<rparr>) @
                   map releaseOf (takeWhile (pinned fp s) (rev fs)),
         events_unwindingCpp :=
           events_unwindingCpp ((log_event (DecRefObj e) s)\<lparr>m_faults := fs\<rparr>) @
           replicate (length (takeWhile (pinned fp s) (rev fs)))
             (m_unwindingCppException ((log_event (DecRefObj e) s)\<lparr>m_faults := fs\<rparr>))\<rparr>"
      by simp
    with fs pf e show ?thesis by (simp add: log_event_def releaseOf_def)
  qed
qed



subsection \<open>Exception Chainer\<close>

lemma chain_unique: "chain h a xs \<Longrightarrow> chain h a ys \<Longrightarrow> xs = ys"
proof (induction arbitrary: ys rule: chain.induct)
  case (chain_end h a)
  then show ?case by (auto elim: chain.cases)
next
  case (chain_step h a b xs)
  from chain_step.prems chain_step.hyps(1) obtain zs where "ys = a # zs" "chain h b zs"
    by (auto elim: chain.cases)
  with chain_step.IH show ?case by simp
qed

lemma chain_edge:
  "chain h a xs \<Longrightarrow> (a, b) \<in> prev_edges h \<Longrightarrow> \<exists>ys. chain h b ys \<and> length ys < length xs"
proof -
  assume c: "chain h a xs" and "(a, b) \<in> prev_edges h"
  then have n: "nxt h a = Some b" by (simp add: prev_edges_def)
  from c n show ?thesis by (cases rule: chain.cases) auto
qed

lemma chain_trancl:
  "(a, b) \<in> (prev_edges h)\<^sup>+ \<Longrightarrow> chain h a xs \<Longrightarrow> \<exists>ys. chain h b ys \<and> length ys < length xs"
proof (induction arbitrary: xs rule: trancl_induct)
  case (base y)
  then show ?case by (rule chain_edge[rotated])
next
  case (step y z)
  from step.IH[OF step.prems] obtain ys where "chain h y ys" "length ys < length xs" by blast
  with chain_edge[OF this(1) step.hyps(2)] show ?case by (meson less_trans)
qed

lemma chain_rtrancl:
  "(a, b) \<in> (prev_edges h)\<^sup>* \<Longrightarrow> chain h a xs \<Longrightarrow> \<exists>ys. chain h b ys"
  by (metis chain_trancl rtranclD)

lemma chain_no_cycle: "chain h a xs \<Longrightarrow> \<not> has_cycle h a"
proof
  assume c: "chain h a xs" and "has_cycle h a"
  then obtain b where r: "(a, b) \<in> (prev_edges h)\<^sup>*" and l: "(b, b) \<in> (prev_edges h)\<^sup>+"
    by (auto simp: has_cycle_def)
  from chain_rtrancl[OF r c] obtain ys where ys: "chain h b ys" ..
  from chain_trancl[OF l ys] obtain zs where "chain h b zs" "length zs < length ys" by blast
  with chain_unique[OF ys this(1)] show False by simp
qed

lemma chain_hd: "chain h a xs \<Longrightarrow> xs \<noteq> [] \<and> hd xs = a"
  by (auto elim: chain.cases)

lemma chain_last: "chain h a xs \<Longrightarrow> nxt h (last xs) = None"
  by (induction rule: chain.induct) (auto dest: chain_hd)

lemma chain_cong:
  "chain h a xs \<Longrightarrow> (\<And>x. x \<in> set xs \<Longrightarrow> nxt h' x = nxt h x) \<Longrightarrow> chain h' a xs"
  by (induction rule: chain.induct) (auto intro: chain.intros)

lemma chain_append:
  "chain h a xs \<Longrightarrow> distinct xs \<Longrightarrow>
   (\<And>x. x \<in> set xs \<Longrightarrow> x \<noteq> last xs \<Longrightarrow> nxt h' x = nxt h x) \<Longrightarrow>
   nxt h' (last xs) = Some p \<Longrightarrow> chain h' p ys \<Longrightarrow> chain h' a (xs @ ys)"
proof (induction rule: chain.induct)
  case (chain_end h a)
  then show ?case by (auto intro: chain.intros)
next
  case (chain_step h a b xs)
  from chain_step.hyps(2) have ne: "xs \<noteq> []" by (simp add: chain_hd)
  then have l: "last (a # xs) = last xs" by simp
  from chain_step.prems(1) ne have al: "a \<noteq> last xs" by auto
  have "chain h' b (xs @ ys)"
  proof (rule chain_step.IH)
    show "distinct xs" using chain_step.prems(1) by simp
    show "nxt h' x = nxt h x" if "x \<in> set xs" "x \<noteq> last xs" for x
      using chain_step.prems(2)[of x] that l by simp
    show "nxt h' (last xs) = Some p" using chain_step.prems(3) l by simp
    show "chain h' p ys" by (rule chain_step.prems(4))
  qed
  moreover have "nxt h' a = Some b"
    using chain_step.prems(2)[of a] al l chain_step.hyps(1) by simp
  ultimately show ?case by (auto intro: chain.intros)
qed

lemma findAcyclicPrev_Some:
  "findAcyclicPrev prev seen s head = Inr (Some lv, seen', s') \<Longrightarrow>
   s' = s \<and> (\<exists>xs obj. chain (objs s) head xs \<and> last xs = lv \<and> distinct xs \<and>
      set xs \<inter> seen = {} \<and> seen' = seen \<union> set xs \<and>
      fmlookup (objs s) head = Some obj \<and> throwable obj)"
proof (induction prev seen s head rule: findAcyclicPrev.induct)
  case (1 prev seen s head)
  from "1.prems" obtain obj where obj: "fmlookup (objs s) head = Some obj" "throwable obj"
    and fresh: "head \<notin> seen"
    by (subst (asm) findAcyclicPrev.simps) (auto split: option.splits if_splits)
  show ?case
  proof (cases "nxt (objs s) head")
    case None
    with "1.prems" obj fresh have "s' = s" "lv = head" "seen' = insert head seen"
      by (subst (asm) findAcyclicPrev.simps;
          auto simp: nxt_def split: option.splits if_splits TypedValue.splits)+
    moreover from None have "chain (objs s) head [head]" by (rule chain_end)
    ultimately show ?thesis using obj fresh by auto
  next
    case (Some p)
    then obtain pobj where p: "previous obj = KindOfObject p" "fmlookup (objs s) p = Some pobj"
      "throwable pobj"
      using obj by (auto simp: nxt_def split: option.splits if_splits TypedValue.splits)
    with "1.prems" obj fresh
    have rec: "findAcyclicPrev prev (insert head seen) s p = Inr (Some lv, seen', s')"
      by (subst (asm) findAcyclicPrev.simps) simp
    from "1.IH"[OF obj(1) _ _ p(1) p(2) p(3) rec] obj(2) fresh
    obtain xs where s: "s' = s" and xs: "chain (objs s) p xs" "last xs = lv" "distinct xs"
      "set xs \<inter> insert head seen = {}" "seen' = insert head seen \<union> set xs"
      by auto
    from xs(1) have ne: "xs \<noteq> []" by (simp add: chain_hd)
    have "chain (objs s) head (head # xs)" using Some xs(1) by (rule chain_step)
    moreover have "last (head # xs) = lv" using ne xs(2) by simp
    moreover have "distinct (head # xs)" using xs(3,4) by auto
    moreover have "set (head # xs) \<inter> seen = {}" using xs(4) fresh by auto
    moreover have "seen' = seen \<union> set (head # xs)" using xs(5) by auto
    ultimately show ?thesis using s obj by blast
  qed
qed

lemma findAcyclicPrev_None:
  "findAcyclicPrev prev seen s head = Inr (None, seen', s') \<Longrightarrow> s' = log_event (DecRefObj prev) s"
proof (induction prev seen s head rule: findAcyclicPrev.induct)
  case (1 prev seen s head)
  from "1.prems" "1.IH" show ?case
    by (subst (asm) findAcyclicPrev.simps)
      (auto split: option.splits if_splits TypedValue.splits)
qed

lemma nxt_fmupd_other:
  assumes "fmlookup h lv = Some obj" "throwable obj' = throwable obj" "x \<noteq> lv"
  shows "nxt (fmupd lv obj' h) x = nxt h x"
  using assms unfolding nxt_def
  by (auto split: option.splits TypedValue.splits)

lemma nxt_fmupd_link:
  assumes "fmlookup h p = Some pobj" "throwable pobj" "p \<noteq> lv"
  shows "nxt (fmupd lv (obj\<lparr>previous := KindOfObject p\<rparr>) h) lv = Some p"
  using assms unfolding nxt_def by simp

lemma chainFaultObjects_cases:
  assumes "chainFaultObjects top_obj prev s = Inr s'"
  shows "s' = log_event (DecRefObj prev) s \<or>
         (\<exists>xs ys. chain (objs s) top_obj xs \<and> chain (objs s) prev ys \<and> set xs \<inter> set ys = {} \<and>
            s' = linked (last xs) prev s \<and> chain (objs s') top_obj (xs @ ys))"
proof -
  from assms obtain lv1 seen1 s1 where w1: "findAcyclicPrev prev {} s top_obj = Inr (lv1, seen1, s1)"
    unfolding chainFaultObjects_def abort_bind_def by (auto split: sum.splits)
  show ?thesis
  proof (cases lv1)
    case None
    with assms w1 have "s' = s1"
      unfolding chainFaultObjects_def abort_bind_def by simp
    with findAcyclicPrev_None w1 None show ?thesis by blast
  next
    case (Some lv)
    from findAcyclicPrev_Some[OF w1[unfolded Some]] obtain xs where
      s1: "s1 = s" and xs: "chain (objs s) top_obj xs" "last xs = lv" "distinct xs"
      "seen1 = set xs" by auto
    from assms w1 Some s1 obtain lv2 seen2 s2 where
      w2: "findAcyclicPrev prev seen1 s prev = Inr (lv2, seen2, s2)"
      unfolding chainFaultObjects_def abort_bind_def by (auto split: sum.splits)
    show ?thesis
    proof (cases lv2)
      case None
      with assms w1 Some s1 w2 have "s' = s2"
        unfolding chainFaultObjects_def abort_bind_def by simp
      with findAcyclicPrev_None w2 None show ?thesis by blast
    next
      case lv2: (Some l2)
      from findAcyclicPrev_Some[OF w2[unfolded lv2]] xs(4) obtain ys pobj where
        s2: "s2 = s" and ys: "chain (objs s) prev ys" "set ys \<inter> set xs = {}"
        and pobj: "fmlookup (objs s) prev = Some pobj" "throwable pobj" by auto
      from assms w1 Some s1 w2 lv2 s2 have set: "tvSetIgnoreRef (KindOfObject prev) lv s = Inr s'"
        unfolding chainFaultObjects_def abort_bind_def by simp
      then obtain obj where obj: "fmlookup (objs s) lv = Some obj"
        and s': "s' = linked lv prev s"
        unfolding tvSetIgnoreRef_def linked_def by (auto split: option.splits)
      let ?obj' = "obj\<lparr>previous := KindOfObject prev\<rparr>"
      have h': "objs s' = fmupd lv ?obj' (objs s)"
        using s' obj by (simp add: linked_def log_event_def)
      from xs(1) have "xs \<noteq> []" by (simp add: chain_hd)
      with xs(2) have lvx: "lv \<in> set xs" by auto
      from ys(1) have "prev \<in> set ys" using chain_hd[OF ys(1)] by (metis hd_in_set)
      with ys(2) lvx have pl: "prev \<noteq> lv" by auto
      have other: "nxt (objs s') x = nxt (objs s) x" if "x \<noteq> lv" for x
        unfolding h' using obj that by (intro nxt_fmupd_other) simp_all
      have link: "nxt (objs s') lv = Some prev"
        unfolding h' using pobj pl by (rule nxt_fmupd_link)
      have cy: "chain (objs s') prev ys"
        using ys(1)
      proof (rule chain_cong)
        fix x assume "x \<in> set ys"
        with ys(2) lvx have "x \<noteq> lv" by auto
        then show "nxt (objs s') x = nxt (objs s) x" by (rule other)
      qed
      have "chain (objs s') top_obj (xs @ ys)"
        using xs(1) xs(3)
      proof (rule chain_append)
        show "nxt (objs s') x = nxt (objs s) x" if "x \<in> set xs" "x \<noteq> last xs" for x
          using that xs(2) other by simp
        show "nxt (objs s') (last xs) = Some prev" using link xs(2) by simp
        show "chain (objs s') prev ys" by (rule cy)
      qed
      with xs ys s' show ?thesis by blast
    qed
  qed
qed

lemma objs_log_event [simp]: "objs (log_event e s) = objs s"
  by (simp add: log_event_def)

lemma ex_cyclic_run:
  "chainFaultObjects 100 101 ex_cyclic_state = Inr (log_event (DecRefObj 101) ex_cyclic_state)"
  by (simp add: chain_defs)

lemma ex_cyclic_edge: "(100, 100) \<in> prev_edges (objs ex_cyclic_state)"
  by (simp add: prev_edges_def nxt_def ex_cyclic_state_def ex_throwable_def)

text \<open>
  C5, as the claim states it, fails for an initial configuration that has a cycle: the
  chainer makes no link and leaves the heap as it is, so the chain of the current
  exception still has its cycle afterwards.
\<close>

theorem C5_cycle_counterexample:
  "objs_of (chainFaultObjects 100 101 ex_cyclic_state) = objs ex_cyclic_state \<and>
   has_cycle (objs_of (chainFaultObjects 100 101 ex_cyclic_state)) 100"
proof -
  have "has_cycle (objs ex_cyclic_state) 100"
    unfolding has_cycle_def using ex_cyclic_edge by blast
  then show ?thesis by (simp add: ex_cyclic_run objs_of_def)
qed

text \<open>
  C5 (amended): the chainer never makes a cycle. If the chain of the current exception
  has no cycle before \<^verbatim>\<open>chainFaultObjects\<close>, it has none after. The heap is changed only
  by a link, and a link is made only if the chain of the current exception is a finite
  list \<open>xs\<close> (it reaches a slot that holds no throwable without revisiting an object), the
  chain of the predecessor is a finite list \<open>ys\<close>, and the two share no object; the link
  is made at the end of \<open>xs\<close>, the resulting chain is \<open>xs @ ys\<close>, and none of the three
  chains has a cycle.
\<close>

theorem C5_chaining_makes_no_cycle:
  assumes "chainFaultObjects top_obj prev s = Inr s'"
  shows "(\<not> has_cycle (objs s) top_obj \<longrightarrow> \<not> has_cycle (objs s') top_obj) \<and>
         (objs s' = objs s \<or>
          (\<exists>xs ys. chain (objs s) top_obj xs \<and> chain (objs s) prev ys \<and>
             set xs \<inter> set ys = {} \<and> s' = linked (last xs) prev s \<and>
             chain (objs s') top_obj (xs @ ys) \<and>
             \<not> has_cycle (objs s) top_obj \<and> \<not> has_cycle (objs s) prev \<and>
             \<not> has_cycle (objs s') top_obj))"
  using chainFaultObjects_cases[OF assms]
proof
  assume "s' = log_event (DecRefObj prev) s"
  then show ?thesis by simp
next
  assume "\<exists>xs ys. chain (objs s) top_obj xs \<and> chain (objs s) prev ys \<and> set xs \<inter> set ys = {} \<and>
            s' = linked (last xs) prev s \<and> chain (objs s') top_obj (xs @ ys)"
  then obtain xs ys where c: "chain (objs s) top_obj xs" "chain (objs s) prev ys"
    "set xs \<inter> set ys = {}" "s' = linked (last xs) prev s" "chain (objs s') top_obj (xs @ ys)"
    by blast
  from c(1,2,5) have "\<not> has_cycle (objs s) top_obj" "\<not> has_cycle (objs s) prev"
    "\<not> has_cycle (objs s') top_obj" by (auto dest: chain_no_cycle)
  with c show ?thesis by blast
qed

lemma ex_chain_run:
  "\<exists>s'. chainFaultObjects 100 101 (ex_chain_state []) = Inr s' \<and>
        previous_of 100 (objs s') = Some (KindOfObject 101)"
  by (simp add: chain_defs previous_of_def)

text \<open>Two exceptions without a \<^verbatim>\<open>previous\<close>: the predecessor 101 is linked into the slot
  of 100 and the chain of 100 has no cycle, before and after.\<close>

theorem C5_witness:
  "previous_of 100 (objs_of (chainFaultObjects 100 101 (ex_chain_state []))) = Some (KindOfObject 101) \<and>
   \<not> has_cycle (objs (ex_chain_state [])) 100 \<and>
   \<not> has_cycle (objs_of (chainFaultObjects 100 101 (ex_chain_state []))) 100"
proof -
  from ex_chain_run obtain s' where run: "chainFaultObjects 100 101 (ex_chain_state []) = Inr s'"
    and p: "previous_of 100 (objs s') = Some (KindOfObject 101)" by blast
  have "nxt (objs (ex_chain_state [])) 100 = None"
    by (simp add: nxt_def ex_chain_state_def ex_throwable_def)
  then have "chain (objs (ex_chain_state [])) 100 [100]" by (rule chain_end)
  then have a: "\<not> has_cycle (objs (ex_chain_state [])) 100" by (rule chain_no_cycle)
  with C5_chaining_makes_no_cycle[OF run] have "\<not> has_cycle (objs s') 100" by blast
  with a p run show ?thesis by (simp add: objs_of_def)
qed

lemma beneath_snoc2 [simp]: "beneath (s\<lparr>m_faults := fs @ [prev, t]\<rparr>) = Some prev"
  by (simp add: beneath_def)

lemma beneath_cases:
  obtains "m_faults s = []" "beneath s = None"
  | t where "m_faults s = [t]" "beneath s = None"
  | fs prev t where "m_faults s = fs @ [prev, t]" "beneath s = Some prev"
proof (cases "m_faults s" rule: rev_cases)
  case Nil
  then show ?thesis using that(1) by (simp add: beneath_def)
next
  case (snoc ys t)
  show ?thesis
  proof (cases ys rule: rev_cases)
    case Nil
    with snoc show ?thesis using that(2) by (simp add: beneath_def)
  next
    case (snoc fs prev)
    with \<open>m_faults s = ys @ [t]\<close> show ?thesis using that(3)[of fs prev t] by (simp add: beneath_def)
  qed
qed

lemma butlast_snoc2 [simp]: "butlast (fs @ [a, b]) = fs @ [a]"
  by (simp add: butlast_append)

lemma chainFaults_result:
  assumes "chainFaults s fault = Inr (merged, s', fault')"
  shows "merged = (case beneath s of None \<Rightarrow> False | Some prev \<Rightarrow> matches fault prev)"
    and "\<not> merged \<Longrightarrow> fault' = fault \<and> s' = s\<lparr>m_faults := butlast (m_faults s) @ [fault]\<rparr>"
    and "merged \<Longrightarrow> \<exists>prev top_obj prev_obj s1.
           beneath s = Some prev \<and> fault' = adopt fault prev \<and>
           m_userException fault = Some top_obj \<and> m_userException prev = Some prev_obj \<and>
           chainFaultObjects top_obj prev_obj (s\<lparr>m_faults := butlast (m_faults s)\<rparr>) = Inr s1 \<and>
           s' = s1\<lparr>m_faults := butlast (butlast (m_faults s)) @ [fault']\<rparr>"
proof -
  show "merged = (case beneath s of None \<Rightarrow> False | Some prev \<Rightarrow> matches fault prev)"
    using assms
    by (cases s rule: beneath_cases)
      (auto simp: chainFaults_def Let_def matches_def abort_bind_def
        split: if_splits option.splits sum.splits)
  show "fault' = fault \<and> s' = s\<lparr>m_faults := butlast (m_faults s) @ [fault]\<rparr>" if "\<not> merged"
    using assms that
    by (cases s rule: beneath_cases)
      (auto simp: chainFaults_def Let_def abort_bind_def
        split: if_splits option.splits sum.splits)
  show "\<exists>prev top_obj prev_obj s1.
           beneath s = Some prev \<and> fault' = adopt fault prev \<and>
           m_userException fault = Some top_obj \<and> m_userException prev = Some prev_obj \<and>
           chainFaultObjects top_obj prev_obj (s\<lparr>m_faults := butlast (m_faults s)\<rparr>) = Inr s1 \<and>
           s' = s1\<lparr>m_faults := butlast (butlast (m_faults s)) @ [fault']\<rparr>" if merged
    using assms that
    by (cases s rule: beneath_cases)
      (auto simp: chainFaults_def Let_def abort_bind_def adopt_def butlast_append
        dest: chainFaultObjects_faults
        split: if_splits option.splits sum.splits)
qed

lemma linked_simps:
  "m_faults (linked lv prev s) = m_faults s"
  "frames (linked lv prev s) = frames s"
  "vmpc (linked lv prev s) = vmpc s"
  "m_pendingException (linked lv prev s) = m_pendingException s"
  by (simp_all add: linked_def log_event_def split: option.splits)

lemma ex_reraise_same_run:
  "\<exists>s'. chainFaults (ex_chain_state [ex_fault 1, ex_reraise 100]) (ex_reraise 100)
          = Inr (True, s', adopt (ex_reraise 100) (ex_fault 1)) \<and>
        previous_of 100 (objs s') = Some KindOfNull"
  by (simp add: chainFaults_def chain_defs previous_of_def adopt_def ex_reraise_def
      ex_fault_def Let_def)

text \<open>
  C4, as the claim states it, fails: a merge does not always link the predecessor's
  exception. When the handler raises the same exception object again, the two records
  are merged (\<^verbatim>\<open>chainFaults\<close> returns true) and the \<^verbatim>\<open>previous\<close> slot of the
  exception stays null.
\<close>

theorem C4_link_counterexample:
  "merged_of (chainFaults (ex_chain_state [ex_fault 1, ex_reraise 100]) (ex_reraise 100))
     = Some True \<and>
   m_userException (ex_fault 1) = Some 100 \<and>
   previous_of 100
     (objs_of (chained_state
        (chainFaults (ex_chain_state [ex_fault 1, ex_reraise 100]) (ex_reraise 100))))
     = Some KindOfNull"
proof -
  from ex_reraise_same_run obtain s' where
    "chainFaults (ex_chain_state [ex_fault 1, ex_reraise 100]) (ex_reraise 100)
       = Inr (True, s', adopt (ex_reraise 100) (ex_fault 1))"
    "previous_of 100 (objs s') = Some KindOfNull" by blast
  then show ?thesis
    by (simp add: merged_of_def chained_state_def objs_of_def ex_fault_def)
qed

lemma chain_reach: "chain h a xs \<Longrightarrow> x \<in> set xs \<Longrightarrow> (a, x) \<in> (prev_edges h)\<^sup>*"
proof (induction rule: chain.induct)
  case (chain_end h a)
  then show ?case by simp
next
  case (chain_step h a b xs)
  show ?case
  proof (cases "x = a")
    case True
    then show ?thesis by simp
  next
    case False
    with chain_step.prems have "x \<in> set xs" by simp
    then have "(b, x) \<in> (prev_edges h)\<^sup>*" by (rule chain_step.IH)
    moreover have "(a, b) \<in> prev_edges h" using chain_step.hyps(1) by (simp add: prev_edges_def)
    ultimately show ?thesis by (rule converse_rtrancl_into_rtrancl[rotated])
  qed
qed

lemma chain_distinct: "chain h a xs \<Longrightarrow> distinct xs"
proof (induction rule: chain.induct)
  case (chain_end h a)
  then show ?case by simp
next
  case (chain_step h a b xs)
  have "a \<notin> set xs"
  proof
    assume "a \<in> set xs"
    with chain_step.hyps(2) have "(b, a) \<in> (prev_edges h)\<^sup>*" by (rule chain_reach)
    moreover have "(a, b) \<in> prev_edges h" using chain_step.hyps(1) by (simp add: prev_edges_def)
    ultimately have "(a, a) \<in> (prev_edges h)\<^sup>+" by (rule rtrancl_into_trancl2[rotated])
    then have "has_cycle h a" unfolding has_cycle_def by blast
    moreover have "chain h a (a # xs)" using chain_step.hyps by (rule chain.chain_step)
    ultimately show False using chain_no_cycle by blast
  qed
  with chain_step.IH show ?case by simp
qed

lemma findAcyclicPrev_None_chain:
  "findAcyclicPrev prev seen s head = Inr (None, seen', s') \<Longrightarrow>
   \<not> (\<exists>xs. chain (objs s) head xs \<and> set xs \<inter> seen = {})"
proof (induction prev seen s head rule: findAcyclicPrev.induct)
  case (1 prev seen s head)
  show ?case
  proof (cases "head \<in> seen")
    case True
    show ?thesis
    proof
      assume "\<exists>xs. chain (objs s) head xs \<and> set xs \<inter> seen = {}"
      then obtain xs where c: "chain (objs s) head xs" and d: "set xs \<inter> seen = {}" by blast
      from chain_hd[OF c] have "head \<in> set xs" by (metis hd_in_set)
      with True d show False by auto
    qed
  next
    case False
    from "1.prems" False obtain obj p pobj where obj: "fmlookup (objs s) head = Some obj"
      "throwable obj" and p: "previous obj = KindOfObject p" "fmlookup (objs s) p = Some pobj"
      "throwable pobj"
      and rec: "findAcyclicPrev prev (insert head seen) s p = Inr (None, seen', s')"
      by (subst (asm) findAcyclicPrev.simps)
        (auto split: option.splits if_splits TypedValue.splits)
    from obj p have n: "nxt (objs s) head = Some p" by (simp add: nxt_def)
    from "1.IH"[OF obj(1) _ False p(1) p(2) p(3) rec] obj(2)
    have ih: "\<not> (\<exists>ys. chain (objs s) p ys \<and> set ys \<inter> insert head seen = {})" by simp
    show ?thesis
    proof
      assume "\<exists>xs. chain (objs s) head xs \<and> set xs \<inter> seen = {}"
      then obtain xs where c: "chain (objs s) head xs" and d: "set xs \<inter> seen = {}" by blast
      from c n obtain ys where xs: "xs = head # ys" and cy: "chain (objs s) p ys"
        by (cases rule: chain.cases) auto
      from chain_distinct[OF c] xs have "head \<notin> set ys" by simp
      with d xs have "set ys \<inter> insert head seen = {}" by auto
      with cy ih show False by blast
    qed
  qed
qed

lemma chainFaultObjects_link:
  assumes run: "chainFaultObjects top_obj prev s = Inr s'"
    and cx: "chain (objs s) top_obj xs" and cy: "chain (objs s) prev ys"
    and dj: "set xs \<inter> set ys = {}"
  shows "s' = linked (last xs) prev s \<and> chain (objs s') top_obj (xs @ ys) \<and>
         previous_of (last xs) (objs s') = Some (KindOfObject prev)"
proof -
  from run obtain lv1 seen1 s1 where w1: "findAcyclicPrev prev {} s top_obj = Inr (lv1, seen1, s1)"
    unfolding chainFaultObjects_def abort_bind_def by (auto split: sum.splits)
  from cx findAcyclicPrev_None_chain[of prev "{}" s top_obj seen1 s1] w1
  obtain lv where lv1: "lv1 = Some lv" by (cases lv1) auto
  from findAcyclicPrev_Some[OF w1[unfolded lv1]] obtain xs' where
    s1: "s1 = s" and xs': "chain (objs s) top_obj xs'" "last xs' = lv" "seen1 = set xs'" by auto
  from chain_unique[OF cx xs'(1)] have [simp]: "xs' = xs" by simp
  from run w1 lv1 s1 obtain lv2 seen2 s2 where
    w2: "findAcyclicPrev prev seen1 s prev = Inr (lv2, seen2, s2)"
    unfolding chainFaultObjects_def abort_bind_def by (auto split: sum.splits)
  from cy dj xs'(3) findAcyclicPrev_None_chain[of prev seen1 s prev seen2 s2] w2
  obtain l2 where lv2: "lv2 = Some l2" by (cases lv2) auto
  from findAcyclicPrev_Some[OF w2[unfolded lv2]] have s2: "s2 = s" by simp
  from run w1 lv1 s1 w2 lv2 s2 have set: "tvSetIgnoreRef (KindOfObject prev) lv s = Inr s'"
    unfolding chainFaultObjects_def abort_bind_def by simp
  then obtain obj where obj: "fmlookup (objs s) lv = Some obj" and s': "s' = linked lv prev s"
    unfolding tvSetIgnoreRef_def linked_def by (auto split: option.splits)
  from s' obj have p: "previous_of lv (objs s') = Some (KindOfObject prev)"
    by (simp add: linked_def log_event_def previous_of_def)
  from chainFaultObjects_cases[OF run] have
    "\<exists>xs ys. chain (objs s) top_obj xs \<and> chain (objs s) prev ys \<and> set xs \<inter> set ys = {} \<and>
            s' = linked (last xs) prev s \<and> chain (objs s') top_obj (xs @ ys)"
  proof
    assume "s' = log_event (DecRefObj prev) s"
    with s' have "events (log_event (DecRefObj prev) s) = events (linked lv prev s)" by simp
    with obj show ?thesis by (simp add: linked_def log_event_def)
  qed
  then obtain xs2 ys2 where c2: "chain (objs s) top_obj xs2" "chain (objs s) prev ys2"
    "chain (objs s') top_obj (xs2 @ ys2)" by blast
  from chain_unique[OF cx c2(1)] chain_unique[OF cy c2(2)] c2(3)
  have "chain (objs s') top_obj (xs @ ys)" by simp
  with s' p xs'(2) show ?thesis by simp
qed

lemma chainFaultObjects_release:
  assumes "chainFaultObjects top_obj prev s = Inr s'" "\<not> chainable (objs s) top_obj prev"
  shows "s' = log_event (DecRefObj prev) s"
  using chainFaultObjects_cases[OF assms(1)] assms(2) unfolding chainable_def by blast

lemma linked_faults_commute:
  "(linked lv prev (s\<lparr>m_faults := fs\<rparr>))\<lparr>m_faults := gs\<rparr> = (linked lv prev s)\<lparr>m_faults := gs\<rparr>"
  by (simp add: linked_def log_event_def split: option.splits)

text \<open>
  C4 (amended): \<^verbatim>\<open>chainFaults\<close> returns true exactly when there is a record beneath the
  top of the stack and it has the \<open>m_raiseNesting\<close> and the \<open>m_raiseFrame\<close> of the fault.
  If it returns false, the top of the stack is replaced by the fault, unchanged. If it
  returns true, the fault adopts the \<open>m_raiseOffset\<close> and the \<open>m_handledCount\<close> of that
  record and replaces the top two records of the stack. The predecessor's exception is
  linked exactly when the chains of the two exceptions are finite and share no object
  (\<open>chainable\<close>): then it is written into the \<^verbatim>\<open>previous\<close> slot at the end of the
  chain of the current exception (its own slot when that chain has one object), and the
  chain of the current exception becomes its old chain followed by the chain of the
  predecessor. Otherwise the predecessor's exception is released and the heap is
  unchanged. Nothing else changes.
\<close>

theorem C4_chainFaults_merge:
  assumes "chainFaults s fault = Inr (merged, s', fault')"
  shows "merged = (case beneath s of None \<Rightarrow> False | Some prev \<Rightarrow> matches fault prev) \<and>
         (\<not> merged \<longrightarrow> fault' = fault \<and> s' = s\<lparr>m_faults := butlast (m_faults s) @ [fault]\<rparr>) \<and>
         (merged \<longrightarrow>
            (\<exists>prev top_obj prev_obj.
               beneath s = Some prev \<and> fault' = adopt fault prev \<and>
               m_userException fault = Some top_obj \<and> m_userException prev = Some prev_obj \<and>
               (if chainable (objs s) top_obj prev_obj
                then \<exists>xs ys. chain (objs s) top_obj xs \<and> chain (objs s) prev_obj ys \<and>
                       set xs \<inter> set ys = {} \<and>
                       s' = (linked (last xs) prev_obj s)
                              \<lparr>m_faults := butlast (butlast (m_faults s)) @ [fault']\<rparr> \<and>
                       previous_of (last xs) (objs s') = Some (KindOfObject prev_obj) \<and>
                       chain (objs s') top_obj (xs @ ys)
                else s' = (log_event (DecRefObj prev_obj) s)
                            \<lparr>m_faults := butlast (butlast (m_faults s)) @ [fault']\<rparr>)))"
proof -
  note r = chainFaults_result[OF assms]
  have "\<exists>prev top_obj prev_obj.
               beneath s = Some prev \<and> fault' = adopt fault prev \<and>
               m_userException fault = Some top_obj \<and> m_userException prev = Some prev_obj \<and>
               (if chainable (objs s) top_obj prev_obj
                then \<exists>xs ys. chain (objs s) top_obj xs \<and> chain (objs s) prev_obj ys \<and>
                       set xs \<inter> set ys = {} \<and>
                       s' = (linked (last xs) prev_obj s)
                              \<lparr>m_faults := butlast (butlast (m_faults s)) @ [fault']\<rparr> \<and>
                       previous_of (last xs) (objs s') = Some (KindOfObject prev_obj) \<and>
                       chain (objs s') top_obj (xs @ ys)
                else s' = (log_event (DecRefObj prev_obj) s)
                            \<lparr>m_faults := butlast (butlast (m_faults s)) @ [fault']\<rparr>)" if merged
  proof -
    from r(3)[OF that] obtain prev top_obj prev_obj s1 where
      p: "beneath s = Some prev" "fault' = adopt fault prev"
      "m_userException fault = Some top_obj" "m_userException prev = Some prev_obj"
      and c: "chainFaultObjects top_obj prev_obj (s\<lparr>m_faults := butlast (m_faults s)\<rparr>) = Inr s1"
      and s': "s' = s1\<lparr>m_faults := butlast (butlast (m_faults s)) @ [fault']\<rparr>"
      by blast
    let ?s0 = "s\<lparr>m_faults := butlast (m_faults s)\<rparr>"
    let ?fs = "butlast (butlast (m_faults s)) @ [fault']"
    have o: "objs ?s0 = objs s" by simp
    have "if chainable (objs s) top_obj prev_obj
          then \<exists>xs ys. chain (objs s) top_obj xs \<and> chain (objs s) prev_obj ys \<and>
                 set xs \<inter> set ys = {} \<and> s' = (linked (last xs) prev_obj s)\<lparr>m_faults := ?fs\<rparr> \<and>
                 previous_of (last xs) (objs s') = Some (KindOfObject prev_obj) \<and>
                 chain (objs s') top_obj (xs @ ys)
          else s' = (log_event (DecRefObj prev_obj) s)\<lparr>m_faults := ?fs\<rparr>"
    proof (cases "chainable (objs s) top_obj prev_obj")
      case True
      then obtain xs ys where ch: "chain (objs s) top_obj xs" "chain (objs s) prev_obj ys"
        "set xs \<inter> set ys = {}" unfolding chainable_def by blast
      from chainFaultObjects_link[OF c ch(1)[folded o] ch(2)[folded o] ch(3)]
      have l: "s1 = linked (last xs) prev_obj ?s0" "chain (objs s1) top_obj (xs @ ys)"
        "previous_of (last xs) (objs s1) = Some (KindOfObject prev_obj)" by blast+
      from l(1) s' have "s' = (linked (last xs) prev_obj s)\<lparr>m_faults := ?fs\<rparr>"
        by (simp add: linked_faults_commute)
      moreover from s' have "objs s' = objs s1" by simp
      ultimately show ?thesis using True ch l(2,3) by auto
    next
      case False
      with chainFaultObjects_release[OF c] have "s1 = log_event (DecRefObj prev_obj) ?s0" by simp
      with s' have "s' = (log_event (DecRefObj prev_obj) s)\<lparr>m_faults := ?fs\<rparr>"
        by (simp add: log_event_def)
      with False show ?thesis by simp
    qed
    with p show ?thesis by blast
  qed
  with r(1) r(2) show ?thesis by blast
qed

lemma ex_reraise_other_run:
  "\<exists>s'. chainFaults (ex_chain_state [ex_fault 1, ex_reraise 101]) (ex_reraise 101)
          = Inr (True, s', adopt (ex_reraise 101) (ex_fault 1)) \<and>
        previous_of 101 (objs s') = Some (KindOfObject 100)"
  by (simp add: chainFaults_def chain_defs previous_of_def adopt_def ex_reraise_def
      ex_fault_def Let_def)

lemma ex_chainable: "chainable (objs (ex_chain_state fs)) 101 100"
proof -
  have "nxt (objs (ex_chain_state fs)) 101 = None" "nxt (objs (ex_chain_state fs)) 100 = None"
    by (simp_all add: nxt_def ex_chain_state_def ex_throwable_def)
  then have "chain (objs (ex_chain_state fs)) 101 [101]" "chain (objs (ex_chain_state fs)) 100 [100]"
    by (auto intro: chain_end)
  then show ?thesis unfolding chainable_def by fastforce
qed

text \<open>The exception 101 raised from the handler that caught 100: the records are merged,
  \<open>m_handledCount\<close> is 1 again, the two chains are finite and disjoint, and 100 is the
  \<^verbatim>\<open>previous\<close> of 101.\<close>

theorem C4_witness:
  "merged_of (chainFaults (ex_chain_state [ex_fault 1, ex_reraise 101]) (ex_reraise 101))
     = Some True \<and>
   matches (ex_reraise 101) (ex_fault 1) \<and>
   chainable (objs (ex_chain_state [ex_fault 1, ex_reraise 101])) 101 100 \<and>
   map_option m_handledCount
     (chained_fault (chainFaults (ex_chain_state [ex_fault 1, ex_reraise 101]) (ex_reraise 101)))
     = Some 1 \<and>
   previous_of 101
     (objs_of (chained_state
        (chainFaults (ex_chain_state [ex_fault 1, ex_reraise 101]) (ex_reraise 101))))
     = Some (KindOfObject 100)"
proof -
  let ?s = "ex_chain_state [ex_fault 1, ex_reraise 101]"
  from ex_reraise_other_run obtain s' where
    run: "chainFaults ?s (ex_reraise 101) = Inr (True, s', adopt (ex_reraise 101) (ex_fault 1))"
    by blast
  have b: "beneath ?s = Some (ex_fault 1)"
    by (simp add: beneath_def ex_chain_state_def ex_state_def)
  have e: "m_userException (ex_reraise 101) = Some 101" "m_userException (ex_fault 1) = Some 100"
    by (simp_all add: ex_reraise_def ex_fault_def)
  note c4 = C4_chainFaults_merge[OF run]
  from c4 b have m: "matches (ex_reraise 101) (ex_fault 1)" by simp
  from c4 b e ex_chainable[of "[ex_fault 1, ex_reraise 101]"]
  obtain xs ys where c: "chain (objs ?s) 101 xs"
    and p: "previous_of (last xs) (objs s') = Some (KindOfObject 100)" by auto
  have "nxt (objs ?s) 101 = None" by (simp add: nxt_def ex_chain_state_def ex_throwable_def)
  then have "chain (objs ?s) 101 [101]" by (rule chain_end)
  with c have "xs = [101]" by (rule chain_unique)
  with p have "previous_of 101 (objs s') = Some (KindOfObject 100)" by simp
  with run m ex_chainable[of "[ex_fault 1, ex_reraise 101]"] show ?thesis
    by (simp add: merged_of_def chained_state_def chained_fault_def objs_of_def adopt_def)
      (simp add: ex_fault_def)
qed

subsection \<open>Steps that enter no handler\<close>

lemma quiet_refl [simp]: "quiet s s"
  by (simp add: quiet_def)

lemma quiet_trans: "quiet a b \<Longrightarrow> quiet b c \<Longrightarrow> quiet a c"
  unfolding quiet_def
  by (elim conjE exE, intro conjI; simp?)
    (metis (no_types, lifting) Un_iff append.assoc length_append replicate_add set_append)

lemma quiet_log: "quiet s s' \<Longrightarrow> e \<noteq> DebuggerHook \<Longrightarrow> quiet s (log_event e s')"
  unfolding quiet_def log_event_def
  by (auto simp: replicate_append_same)

lemma quiet_upd [simp]:
  "quiet s (s'\<lparr>vmStack := a\<rparr>) = quiet s s'"
  "quiet s (s'\<lparr>vmfp := b\<rparr>) = quiet s s'"
  "quiet s (s'\<lparr>vmpc := c\<rparr>) = quiet s s'"
  "quiet s (s'\<lparr>m_faults := d\<rparr>) = quiet s s'"
  "quiet s (s'\<lparr>frames := f\<rparr>) = quiet s s'"
  "quiet s (s'\<lparr>objs := g\<rparr>) = quiet s s'"
  "quiet s (s'\<lparr>tvRef := h\<rparr>) = quiet s s'"
  "quiet s (s'\<lparr>tvRef2 := i\<rparr>) = quiet s s'"
  by (simp_all add: quiet_def)

lemma quiet_upd_left [simp]:
  "quiet (s\<lparr>vmStack := a\<rparr>) s' = quiet s s'"
  "quiet (s\<lparr>vmfp := b\<rparr>) s' = quiet s s'"
  "quiet (s\<lparr>vmpc := c\<rparr>) s' = quiet s s'"
  "quiet (s\<lparr>m_faults := d\<rparr>) s' = quiet s s'"
  "quiet (s\<lparr>frames := f\<rparr>) s' = quiet s s'"
  "quiet (s\<lparr>objs := g\<rparr>) s' = quiet s s'"
  by (simp_all add: quiet_def)

lemma quiet_log_left:
  "quiet (log_event e s) s' \<Longrightarrow> e \<noteq> DebuggerHook \<Longrightarrow> quiet s s'"
  by (rule quiet_trans[of s "log_event e s" s']) (simp_all add: quiet_log)

lemma visitStackElems_quiet: "visitStackElems func n s = Inr s' \<Longrightarrow> quiet s s'"
proof (induction n arbitrary: s)
  case 0
  then show ?case by simp
next
  case (Suc n)
  from Suc.prems show ?case
    by (auto split: list.splits StackElem.splits if_splits option.splits
        dest!: Suc.IH quiet_log_left)
qed

lemma trashClsRefSlots_quiet: "quiet s (trashClsRefSlots fp n s)"
  by (auto simp: quiet_def trashClsRefSlots_def)

lemma discardStackTemps_quiet:
  assumes "discardStackTemps fp off s = Inr s'"
  shows "quiet s s'"
proof -
  from assms obtain func n k s1 where v: "visitStackElems func n s = Inr s1"
    and s': "s' = trashClsRefSlots fp k s1"
    unfolding discardStackTemps_def abort_bind_def
    by (fastforce split: option.splits sum.splits)
  from visitStackElems_quiet[OF v] trashClsRefSlots_quiet[of s1 fp k] s' show ?thesis
    by (auto intro: quiet_trans)
qed

lemma discardMemberTVRefs_quiet: "discardMemberTVRefs s = Inr s' \<Longrightarrow> quiet s s'"
  unfolding discardMemberTVRefs_def abort_bind_def
  by (auto split: sum.splits if_splits simp: Let_def intro!: quiet_log)

lemma discardPendingFaults_quiet: "discardPendingFaults fp s = Inr s' \<Longrightarrow> quiet s s'"
  by (drule discardPendingFaults_result) (auto simp: quiet_def releaseOf_def)

lemma ctorGuard_quiet: "ctorGuard rt fp ar curOp s = Inr s' \<Longrightarrow> quiet s s'"
  unfolding ctorGuard_def
  by (auto split: if_splits option.splits prod.splits intro!: quiet_log)

lemma decRefLocals_quiet: "decRefLocals rt fp func exc s = Inr s' \<Longrightarrow> quiet s s'"
  unfolding decRefLocals_def frame_free_locals_unwind_def setLocalsDecRefd_def
  by (auto split: option.splits if_splits prod.splits intro!: quiet_log)

lemma releaseFrame_quiet: "releaseFrame rt fp ar exc s = Inr (e, s') \<Longrightarrow> quiet s s'"
  unfolding releaseFrame_def abort_bind_def
  by (auto simp: Let_def freeActRec_def split: if_splits sum.splits option.splits
      dest!: decRefLocals_quiet returnWaitHandle_result intro!: quiet_log)

lemma returnToCaller_quiet: "returnToCaller p soff (e, s) = Inr (e', s') \<Longrightarrow> quiet s s'"
  unfolding returnToCaller_def by (auto split: option.splits)

lemma tearDownFrame_quiet:
  assumes "tearDownFrame rt s exc = Inr (e, s')"
  shows "quiet s s'"
proof -
  from assms obtain fp ar where fp: "vmfp s = Some fp" and ar: "frames s fp = Some ar"
    unfolding tearDownFrame_def by (auto split: option.splits)
  from assms fp ar obtain curOp s1 e2 s2 where
    g: "ctorGuard rt fp ar curOp s = Inr s1"
    and r: "releaseFrame rt fp ar exc s1 = Inr (e2, s2)"
    and c: "returnToCaller (m_sfp ar) (m_soff ar) (e2, s2) = Inr (e, s')"
    by (rule tearDownFrame_steps)
  from ctorGuard_quiet[OF g] releaseFrame_quiet[OF r] have "quiet s s2" by (rule quiet_trans)
  with returnToCaller_quiet[OF c] show ?thesis by (rule quiet_trans[rotated])
qed

lemma chainFaultObjects_quiet: "chainFaultObjects top_obj prev s = Inr s' \<Longrightarrow> quiet s s'"
  by (drule chainFaultObjects_cases)
    (auto simp: linked_def split: option.splits intro!: quiet_log)

lemma chainFaults_quiet: "chainFaults s fault = Inr (merged, s', fault') \<Longrightarrow> quiet s s'"
  by (cases merged; drule chainFaults_result; auto dest!: chainFaultObjects_quiet)

lemma faults_back_quiet:
  "faults_pop_back s = Inr s' \<Longrightarrow> quiet s s'"
  "faults_set_back f s = Inr s' \<Longrightarrow> quiet s s'"
  by (auto simp: faults_pop_back_def faults_set_back_def split: if_splits)

lemma visitStackElems_frames:
  "visitStackElems func n s = Inr s' \<Longrightarrow> frames s' = frames s \<and> vmfp s' = vmfp s"
proof (induction n arbitrary: s)
  case 0
  then show ?case by simp
next
  case (Suc n)
  from Suc.prems show ?case
    by (auto split: list.splits StackElem.splits if_splits option.splits
        dest!: Suc.IH simp: log_event_def)
qed

lemma discardStackTemps_frames:
  "discardStackTemps fp off s = Inr s' \<Longrightarrow> frames s' = frames s \<and> vmfp s' = vmfp s"
  unfolding discardStackTemps_def abort_bind_def trashClsRefSlots_def
  by (auto split: option.splits sum.splits dest!: visitStackElems_frames)

subsection \<open>Guest-exception driver: the loop over handlers\<close>

lemma chainFaultObjects_fields:
  assumes "chainFaultObjects top_obj prev s = Inr s'"
  shows "frames s' = frames s" "vmpc s' = vmpc s" "m_pendingException s' = m_pendingException s"
  using chainFaultObjects_cases[OF assms]
  by (auto simp: linked_simps log_event_def)

lemma chainFaults_fields:
  assumes "chainFaults s fault = Inr (merged, s', fault')"
  shows "frames s' = frames s" "vmpc s' = vmpc s" "m_pendingException s' = m_pendingException s"
  using chainFaults_result[OF assms]
  by (cases merged; auto dest: chainFaultObjects_fields)+

lemma skip_unfold:
  assumes "skipsHandlers s fp"
  shows "unwindPhp_handlers fp s fault =
     (case chainFaults s fault of
        Inl a \<Rightarrow> Inl a
      | Inr (merged, s1, fault1) \<Rightarrow>
          if merged then unwindPhp_handlers fp s1 fault1 else Inr (Propagate, s1, fault1))"
  using assms
  by (subst unwindPhp_handlers.simps) (auto simp: skipsHandlers_def split: option.splits)

lemma matches_adopt [simp]: "matches (adopt fault prev) = matches fault"
  by (simp add: matches_def adopt_def fun_eq_iff)

lemma adopt_adopt [simp]: "adopt (adopt fault a) b = adopt fault b"
  by (simp add: adopt_def)

lemma skip_loop:
  assumes "skipsHandlers s fp" "unwindPhp_handlers fp s fault = Inr (act, s', fault')"
  shows "act = Propagate \<and> vmpc s' = vmpc s \<and> skipsHandlers s' fp \<and>
         m_faults s' = rev (dropWhile (matches fault) (rev (butlast (m_faults s)))) @ [fault'] \<and>
         fault' = adopt_run fault (takeWhile (matches fault) (rev (butlast (m_faults s))))"
  using assms
proof (induction "length (m_faults s)" arbitrary: s fault rule: less_induct)
  case less
  from less.prems obtain merged s1 f1 where cf: "chainFaults s fault = Inr (merged, s1, f1)"
    and rest: "(if merged then unwindPhp_handlers fp s1 f1 else Inr (Propagate, s1, f1))
                 = Inr (act, s', fault')"
    by (auto simp: skip_unfold split: sum.splits)
  note r = chainFaults_result[OF cf]
  note fl = chainFaults_fields[OF cf]
  from fl less.prems(1) have sk1: "skipsHandlers s1 fp"
    by (auto simp: skipsHandlers_def split: option.splits)
  show ?case
  proof (cases merged)
    case False
    with rest r(2) have e: "act = Propagate" "s' = s\<lparr>m_faults := butlast (m_faults s) @ [fault]\<rparr>"
      "fault' = fault" by auto
    from False r(1) have "takeWhile (matches fault) (rev (butlast (m_faults s))) = []"
      by (cases s rule: beneath_cases) auto
    moreover from this have "dropWhile (matches fault) (rev (butlast (m_faults s)))
        = rev (butlast (m_faults s))"
      by (metis takeWhile_dropWhile_id append_Nil)
    ultimately show ?thesis using e less.prems(1)
      by (auto simp: adopt_run_def skipsHandlers_def split: option.splits)
  next
    case True
    from r(3)[OF True] obtain prev s0 where p: "beneath s = Some prev" "f1 = adopt fault prev"
      and s1: "s1 = s0\<lparr>m_faults := butlast (butlast (m_faults s)) @ [f1]\<rparr>" by blast
    from p(1) obtain fs t where fs: "m_faults s = fs @ [prev, t]"
      by (cases s rule: beneath_cases) auto
    from True r(1) p(1) have m: "matches fault prev" by simp
    from s1 fs have f1s: "m_faults s1 = fs @ [f1]" by simp
    then have "length (m_faults s1) < length (m_faults s)" using fs by simp
    moreover from True rest have "unwindPhp_handlers fp s1 f1 = Inr (act, s', fault')" by simp
    ultimately have ih: "act = Propagate \<and> vmpc s' = vmpc s1 \<and> skipsHandlers s' fp \<and>
         m_faults s' = rev (dropWhile (matches f1) (rev (butlast (m_faults s1)))) @ [fault'] \<and>
         fault' = adopt_run f1 (takeWhile (matches f1) (rev (butlast (m_faults s1))))"
      using less.hyps sk1 by blast
    have "adopt_run f1 (takeWhile (matches fault) (rev fs))
        = adopt_run fault (prev # takeWhile (matches fault) (rev fs))"
      by (simp add: adopt_run_def p(2))
    with ih fl(2) f1s fs m p(2) show ?thesis by simp
  qed
qed

lemma skip_loop_quiet:
  assumes "skipsHandlers s fp" "unwindPhp_handlers fp s fault = Inr (act, s', fault')"
  shows "quiet s s'"
  using assms
proof (induction "length (m_faults s)" arbitrary: s fault rule: less_induct)
  case less
  from less.prems obtain merged s1 f1 where cf: "chainFaults s fault = Inr (merged, s1, f1)"
    and rest: "(if merged then unwindPhp_handlers fp s1 f1 else Inr (Propagate, s1, f1))
                 = Inr (act, s', fault')"
    by (auto simp: skip_unfold split: sum.splits)
  note q = chainFaults_quiet[OF cf]
  from chainFaults_fields[OF cf] less.prems(1) have sk1: "skipsHandlers s1 fp"
    by (auto simp: skipsHandlers_def split: option.splits)
  show ?case
  proof (cases merged)
    case False
    with rest have "s' = s1" by simp
    with q show ?thesis by simp
  next
    case True
    with cf have "length (m_faults s1) < length (m_faults s)" by (simp add: chainFaults_shrinks)
    moreover from True rest have "unwindPhp_handlers fp s1 f1 = Inr (act, s', fault')" by simp
    ultimately have "quiet s1 s'" using less.hyps sk1 by blast
    with q show ?thesis by (rule quiet_trans)
  qed
qed

lemma discard_skips:
  assumes "(if discard then discardStackTemps fp off s else Inr s) = Inr s1"
  shows "skipsHandlers s1 q = skipsHandlers s q" and "quiet s s1"
proof -
  from assms have "frames s1 = frames s \<and> quiet s s1"
    by (cases discard) (auto dest: discardStackTemps_frames discardStackTemps_quiet)
  then show "skipsHandlers s1 q = skipsHandlers s q" and "quiet s s1"
    by (auto simp: skipsHandlers_def quiet_def split: option.splits)
qed

lemma unwindPhp_loop_turn:
  assumes "vmfp s = Some fp" "bindFault fp s fault = Inr (fault1, discard)"
    "assertBound fault1 = Inr ()"
    "(if discard then discardStackTemps fp (m_raiseOffset fault1) s else Inr s) = Inr s1"
    "unwindPhp_handlers fp s1 fault1 = Inr (act, s2, fault2)"
  shows "unwindPhp_loop rt (Suc n) s fault =
           (case act of
              ResumeVM \<Rightarrow> Some (Inr (None, s2))
            | Propagate \<Rightarrow>
                afterTearDown rt n fault2 (tearDownFrame rt s2 (m_userException fault2)))"
  using assms
  by (cases act; cases discard)
    (simp_all add: afterTearDown_def split: sum.splits option.splits prod.splits)

text \<open>
  C10: a turn of the loop of \<^verbatim>\<open>unwindPhp\<close> for the frame \<open>fp\<close> in which the handler
  search is skipped (a host exception is pending on the thread, or the frame's latch
  \<open>localsDecRefd\<close> is set). After the fault has been bound and the temporaries discarded
  (state \<open>s1\<close>, fault \<open>fault1\<close>), the inner loop is the call of \<^verbatim>\<open>chainFaults\<close>,
  repeated while it merges. When it ends its action is \<open>Propagate\<close>, every record
  beneath the top that was raised at the nesting and in the frame of the fault, down to
  the first that was not, has been merged into the fault, and the fault has the
  \<open>m_raiseOffset\<close> and the \<open>m_handledCount\<close> of the last record merged. The frame is torn
  down after that: the turn of the driver is \<^verbatim>\<open>tearDownFrame\<close> in the state, and with
  the exception of the fault, that the chainer left, followed by what the driver does
  with the result of the teardown.
\<close>

theorem C10_chainer_runs_when_search_skipped:
  assumes "vmfp s = Some fp" and "skipsHandlers s fp"
    and "bindFault fp s fault = Inr (fault1, discard)" and "assertBound fault1 = Inr ()"
    and "(if discard then discardStackTemps fp (m_raiseOffset fault1) s else Inr s) = Inr s1"
  shows "unwindPhp_handlers fp s1 fault1 =
           (case chainFaults s1 fault1 of
              Inl a \<Rightarrow> Inl a
            | Inr (merged, s2, fault2) \<Rightarrow>
                if merged then unwindPhp_handlers fp s2 fault2 else Inr (Propagate, s2, fault2)) \<and>
         (unwindPhp_handlers fp s1 fault1 = Inr (act, s', fault') \<longrightarrow>
            act = Propagate \<and>
            m_faults s' = rev (dropWhile (matches fault1) (rev (butlast (m_faults s1)))) @ [fault'] \<and>
            fault' = adopt_run fault1 (takeWhile (matches fault1) (rev (butlast (m_faults s1)))) \<and>
            unwindPhp_loop rt (Suc n) s fault =
              afterTearDown rt n fault' (tearDownFrame rt s' (m_userException fault')))"
proof -
  from discard_skips(1)[OF assms(5)] assms(2) have sk: "skipsHandlers s1 fp" by simp
  have "unwindPhp_loop rt (Suc n) s fault =
          afterTearDown rt n fault' (tearDownFrame rt s' (m_userException fault'))"
    if h: "unwindPhp_handlers fp s1 fault1 = Inr (act, s', fault')"
  proof -
    from skip_loop[OF sk h] have "act = Propagate" by simp
    with unwindPhp_loop_turn[OF assms(1,3,4,5) h, of rt n] show ?thesis by simp
  qed
  with skip_unfold[OF sk] skip_loop[OF sk] show ?thesis by blast
qed

lemma ex_pending_skips: "skipsHandlers ex_pending_state 1"
  by (simp add: skipsHandlers_def ex_pending_state_def ex_chain_state_def ex_state_def)

lemma ex_pending_chain:
  "\<exists>s1. chainFaults ex_pending_state (ex_reraise 101)
          = Inr (True, s1, adopt (ex_reraise 101) (ex_fault 1)) \<and>
        m_faults s1 = [adopt (ex_reraise 101) (ex_fault 1)] \<and> skipsHandlers s1 1"
  by (simp add: chainFaults_def chain_defs adopt_def ex_reraise_def ex_pending_state_def
      ex_fault_def Let_def skipsHandlers_def)

lemma ex_pending_last:
  "m_faults s1 = [f] \<Longrightarrow> chainFaults s1 f = Inr (False, s1\<lparr>m_faults := [f]\<rparr>, f)"
  by (simp add: chainFaults_def)

lemma ex_pending_handlers:
  "unwindPhp_handlers 1 ex_pending_state (ex_reraise 101)
     = Inr (Propagate, ex_merged_state, adopt (ex_reraise 101) (ex_fault 1))"
  by (simp add: unwindPhp_handlers.simps chainFaults_def chain_defs linked_def adopt_def
      ex_reraise_def ex_pending_state_def ex_merged_state_def ex_fault_def Let_def ex_frame_def)

lemma ex_pending_teardown:
  "\<exists>s'. afterTearDown ex_rt 0 (adopt (ex_reraise 101) (ex_fault 1))
          (tearDownFrame ex_rt ex_merged_state (Some 101))
          = Some (Inr (Some (ThrowObject 101), s')) \<and> m_faults s' = []"
  by (simp add: afterTearDown_def ex_merged_state_def linked_def ex_pending_state_def
      ex_chain_state_def ex_throwable_def resetFault_def faults_set_back_def
      faults_pop_back_def adopt_def ex_reraise_def ex_fault_def tear_defs ex_defs)

text \<open>With a host exception pending, the fault of the exception 101 is still merged with
  the record beneath it and takes its \<open>m_handledCount\<close>; frame 1 is torn down in the
  merged state, and the driver rethrows 101 with no fault left on the stack.\<close>

theorem C10_witness:
  "vmfp ex_pending_state = Some 1 \<and> skipsHandlers ex_pending_state 1 \<and>
   matches (ex_reraise 101) (ex_fault 1) \<and>
   handlers_result (unwindPhp_handlers 1 ex_pending_state (ex_reraise 101))
     = Some (Propagate, [adopt (ex_reraise 101) (ex_fault 1)], 1) \<and>
   unwindPhp_loop ex_rt 1 ex_pending_state (ex_reraise 101) =
     afterTearDown ex_rt 0 (adopt (ex_reraise 101) (ex_fault 1))
       (tearDownFrame ex_rt ex_merged_state (Some 101)) \<and>
   guest_thrown (unwindPhp_loop ex_rt 1 ex_pending_state (ex_reraise 101))
     = Some (ThrowObject 101) \<and>
   guest_faults (unwindPhp_loop ex_rt 1 ex_pending_state (ex_reraise 101)) = Some []"
proof -
  have fp: "vmfp ex_pending_state = Some 1"
    by (simp add: ex_pending_state_def ex_chain_state_def ex_state_def)
  have b: "bindFault 1 ex_pending_state (ex_reraise 101) = Inr (ex_reraise 101, False)"
    by (simp add: bindFault_def kInvalidOffset_def ex_reraise_def)
  have a: "assertBound (ex_reraise 101) = Inr ()"
    by (simp add: assertBound_def kInvalidOffset_def kInvalidNesting_def ex_reraise_def)
  have d: "(if False then discardStackTemps 1 (m_raiseOffset (ex_reraise 101)) ex_pending_state
            else Inr ex_pending_state) = Inr ex_pending_state" by simp
  note c10 = C10_chainer_runs_when_search_skipped[OF fp ex_pending_skips b a d,
      of Propagate ex_merged_state "adopt (ex_reraise 101) (ex_fault 1)" ex_rt 0]
  from c10 ex_pending_handlers
  have eq: "unwindPhp_loop ex_rt (Suc 0) ex_pending_state (ex_reraise 101) =
      afterTearDown ex_rt 0 (adopt (ex_reraise 101) (ex_fault 1))
        (tearDownFrame ex_rt ex_merged_state (m_userException (adopt (ex_reraise 101) (ex_fault 1))))"
    and f: "m_faults ex_merged_state =
      rev (dropWhile (matches (ex_reraise 101)) (rev (butlast (m_faults ex_pending_state))))
        @ [adopt (ex_reraise 101) (ex_fault 1)]"
    by blast+
  have e: "m_userException (adopt (ex_reraise 101) (ex_fault 1)) = Some 101"
    by (simp add: adopt_def ex_reraise_def)
  note eq1 = eq[unfolded e, folded One_nat_def]
  from ex_pending_teardown eq1 obtain s' where
    run: "unwindPhp_loop ex_rt 1 ex_pending_state (ex_reraise 101)
          = Some (Inr (Some (ThrowObject 101), s'))" "m_faults s' = []" by auto
  have m: "matches (ex_reraise 101) (ex_fault 1)"
    by (simp add: matches_def ex_reraise_def ex_fault_def)
  have h: "handlers_result (unwindPhp_handlers 1 ex_pending_state (ex_reraise 101))
     = Some (Propagate, [adopt (ex_reraise 101) (ex_fault 1)], 1)"
    unfolding ex_pending_handlers handlers_result_def
    by (simp add: ex_merged_state_def adopt_def ex_fault_def)
  have t: "guest_thrown (unwindPhp_loop ex_rt 1 ex_pending_state (ex_reraise 101))
     = Some (ThrowObject 101)"
    unfolding run(1) guest_thrown_def by simp
  have g: "guest_faults (unwindPhp_loop ex_rt 1 ex_pending_state (ex_reraise 101)) = Some []"
    unfolding run(1) guest_faults_def using run(2) by simp
  from fp ex_pending_skips m h eq1 t g show ?thesis by blast
qed

subsection \<open>Host-exception flag\<close>

lemma ex_host_run:
  "\<exists>s'. unwindPhp ex_rt 1 ex_host_state = Some (Inr (None, s')) \<and> vmpc s' = Some 40"
  by (simp add: unwindPhp_def discardMemberTVRefs_def peek_op_def abort_bind_def
      isMemberDimOp_def isMemberFinalOp_def bindFault_def assertBound_def
      kInvalidOffset_def kInvalidNesting_def unwindPhp_handlers.simps ehtab_at_def
      checkHandlers_def checkHandlers_loop.simps phpDebuggerExceptionHandlerHook_def
      log_event_def faults_set_back_def
      ex_host_state_def ex_state_def ex_fault_def ex_frame_def ex_func_def ex_eh0_def)

text \<open>
  C3, as the claim states it, fails: the handler search of \<^verbatim>\<open>unwindPhp\<close> does not read
  the flag \<open>m_unwindingCppException\<close>. With the flag set and no host exception pending on
  the thread, the guest driver enters the Catch handler at offset 40.
\<close>

theorem C3_flag_counterexample:
  "m_unwindingCppException ex_host_state \<and>
   pc_after (unwindPhp ex_rt 1 ex_host_state) = Some (Some 40)"
proof -
  from ex_host_run obtain s' where
    "unwindPhp ex_rt 1 ex_host_state = Some (Inr (None, s'))" "vmpc s' = Some 40" by blast
  then show ?thesis by (simp add: pc_after_def ex_host_state_def)
qed

subsection \<open>The host driver returns\<close>

lemma frames_within_cong:
  assumes "\<And>a. map_option m_sfp (F' a) = map_option m_sfp (F a)"
  shows "frames_within F' p n = frames_within F p n"
proof (induction n arbitrary: p)
  case 0
  show ?case by (cases p) simp_all
next
  case (Suc n)
  show ?case
  proof (cases p)
    case None
    then show ?thesis by simp
  next
    case (Some fp)
    from assms[of fp] Suc.IH Some show ?thesis
      by (cases "F fp"; cases "F' fp") auto
  qed
qed

lemma released_links:
  "frames s fp = Some ar \<Longrightarrow>
   map_option m_sfp (frames (released fp ar exc s) a) = map_option m_sfp (frames s a)"
  by (simp add: released_simps)

lemma tearDownFrame_caller:
  assumes "tearDownFrame rt s exc = Inr (e, s')" "frames_within (frames s) (vmfp s) (Suc n)"
  shows "frames_within (frames s') (vmfp s') n"
proof -
  from assms(1) obtain fp ar where fp: "vmfp s = Some fp" and ar: "frames s fp = Some ar"
    unfolding tearDownFrame_def by (auto split: option.splits)
  from assms(1) fp ar have
    fr: "frames s' = frames (released fp ar exc s)" and caller: "vmfp s' = m_sfp ar"
    by (rule tearDownFrame_result; simp)+
  from assms(2) fp ar have "frames_within (frames s) (m_sfp ar) n" by simp
  moreover have "frames_within (frames s') (m_sfp ar) n = frames_within (frames s) (m_sfp ar) n"
    unfolding fr by (rule frames_within_cong) (rule released_links[OF ar])
  ultimately show ?thesis using caller by simp
qed

text \<open>The host driver returns (by its rethrow, or by an abort) when its fuel covers the
  chain of frames.\<close>

lemma unwindCpp_loop_returns:
  "frames_within (frames s) (vmfp s) n \<Longrightarrow> 0 < n \<Longrightarrow> unwindCpp_loop rt n s \<noteq> None"
proof (induction n arbitrary: s)
  case 0
  then show ?case by simp
next
  case (Suc n)
  show ?case
  proof (cases "vmfp s")
    case None
    then show ?thesis by simp
  next
    case (Some fp)
    have "unwindCpp_loop rt n s3 \<noteq> None"
      if "discardPendingFaults fp s = Inr s1" "discardStackTemps fp off s1 = Inr s2"
        "tearDownFrame rt s2 None = Inr (None, s3)" "vmfp s3 \<noteq> None" for s1 s2 s3 off
    proof -
      from discardPendingFaults_result[OF that(1)] discardStackTemps_frames[OF that(2)]
      have "frames s2 = frames s" "vmfp s2 = vmfp s" by simp_all
      with Suc.prems have "frames_within (frames s2) (vmfp s2) (Suc n)" by simp
      from tearDownFrame_caller[OF that(3) this]
      have w: "frames_within (frames s3) (vmfp s3) n" .
      with that(4) have "0 < n" by (cases n) auto
      with w show ?thesis by (rule Suc.IH)
    qed
    with Some show ?thesis
      by (subst unwindCpp_loop.simps) (auto split: option.splits sum.splits)
  qed
qed

lemma unwindCpp_returns:
  assumes "frames_within (frames s) (vmfp s) n" "0 < n"
  shows "unwindCpp rt n exception s \<noteq> None"
proof -
  have "unwindCpp_loop rt n s1 \<noteq> None"
    if "discardMemberTVRefs (s\<lparr>m_unwindingCppException := True\<rparr>) = Inr s1" for s1
  proof -
    from that have "frames s1 = frames s \<and> vmfp s1 = vmfp s"
      unfolding discardMemberTVRefs_def abort_bind_def
      by (auto split: sum.splits if_splits simp: Let_def log_event_def)
    with assms show ?thesis by (simp add: unwindCpp_loop_returns)
  qed
  then show ?thesis
    unfolding unwindCpp_def by (auto split: sum.splits option.splits)
qed

subsection \<open>Host exceptions and the handler search\<close>

lemma unwindCpp_loop_turn:
  assumes "unwindCpp_loop rt (Suc n) a = Some (Inr b)"
  obtains fp off a1 a2 a3 where "vmfp a = Some fp" "vmpc a = Some off"
    "discardPendingFaults fp a = Inr a1" "discardStackTemps fp off a1 = Inr a2"
    "tearDownFrame rt a2 None = Inr (None, a3)"
    "if vmfp a3 = None then b = a3 else unwindCpp_loop rt n a3 = Some (Inr b)"
  using assms by (auto split: option.splits sum.splits if_splits)

lemma unwindCpp_loop_quiet: "unwindCpp_loop rt n s = Some (Inr s') \<Longrightarrow> quiet s s'"
proof (induction n arbitrary: s)
  case 0
  then show ?case by simp
next
  case (Suc n)
  from Suc.prems obtain fp off a1 a2 a3 where
    d: "discardPendingFaults fp s = Inr a1" and t: "discardStackTemps fp off a1 = Inr a2"
    and td: "tearDownFrame rt a2 None = Inr (None, a3)"
    and r: "if vmfp a3 = None then s' = a3 else unwindCpp_loop rt n a3 = Some (Inr s')"
    by (rule unwindCpp_loop_turn)
  from discardPendingFaults_quiet[OF d] discardStackTemps_quiet[OF t]
  have "quiet s a2" by (rule quiet_trans)
  with tearDownFrame_quiet[OF td] have q: "quiet s a3" by (rule quiet_trans[rotated])
  show ?case
  proof (cases "vmfp a3 = None")
    case True
    with r q show ?thesis by simp
  next
    case False
    with r have "unwindCpp_loop rt n a3 = Some (Inr s')" by simp
    then have "quiet a3 s'" by (rule Suc.IH)
    with q show ?thesis by (rule quiet_trans)
  qed
qed

lemma unwindPhp_loop_Inr:
  assumes "unwindPhp_loop rt (Suc n) s fault = Some (Inr (r, s'))"
  obtains fp fault1 discard s1 act s2 fault2 where
    "vmfp s = Some fp" "bindFault fp s fault = Inr (fault1, discard)"
    "assertBound fault1 = Inr ()"
    "(if discard then discardStackTemps fp (m_raiseOffset fault1) s else Inr s) = Inr s1"
    "unwindPhp_handlers fp s1 fault1 = Inr (act, s2, fault2)"
proof -
  from assms obtain fp where fp: "vmfp s = Some fp" by (auto split: option.splits)
  from assms fp obtain fault1 discard where b: "bindFault fp s fault = Inr (fault1, discard)"
    by (cases "bindFault fp s fault") auto
  from assms fp b have a: "assertBound fault1 = Inr ()"
    by (cases "assertBound fault1") auto
  from assms fp b a obtain s1 where
    d: "(if discard then discardStackTemps fp (m_raiseOffset fault1) s else Inr s) = Inr s1"
    by (cases "if discard then discardStackTemps fp (m_raiseOffset fault1) s else Inr s")
      (auto split: if_splits)
  from assms fp b a d obtain act s2 fault2 where
    "unwindPhp_handlers fp s1 fault1 = Inr (act, s2, fault2)"
    by (cases "unwindPhp_handlers fp s1 fault1") (auto split: if_splits)
  with fp b a d show thesis by (rule that)
qed

lemma handlers_Inr_frame:
  "unwindPhp_handlers fp s fault = Inr r \<Longrightarrow> frames s fp \<noteq> None"
  by (subst (asm) unwindPhp_handlers.simps) (auto split: option.splits)

lemma afterTearDown_quiet:
  assumes ih: "\<And>s4 f3. m_pendingException s4 \<noteq> None \<Longrightarrow>
      unwindPhp_loop rt n s4 f3 = Some (Inr (r, s')) \<Longrightarrow> quiet s4 s'"
    and p: "m_pendingException s2 \<noteq> None"
    and run: "afterTearDown rt n fault2 (tearDownFrame rt s2 exc) = Some (Inr (r, s'))"
  shows "quiet s2 s'"
proof -
  from run obtain e s3 where td: "tearDownFrame rt s2 exc = Inr (e, s3)"
    unfolding afterTearDown_def by (cases "tearDownFrame rt s2 exc") auto
  note q = tearDownFrame_quiet[OF td]
  show ?thesis
  proof (cases e)
    case None
    with run td have "faults_pop_back s3 = Inr s'"
      unfolding afterTearDown_def abort_bind_def by (auto split: sum.splits)
    from q faults_back_quiet(1)[OF this] show ?thesis by (rule quiet_trans)
  next
    case (Some x)
    let ?f3 = "resetFault (fault2\<lparr>m_userException := Some x\<rparr>)"
    from run td Some obtain s4 where sb: "faults_set_back ?f3 s3 = Inr s4"
      and rest: "(if vmfp s4 \<noteq> None then unwindPhp_loop rt n s4 ?f3
                  else Some (abort_bind (faults_pop_back s4)
                               (\<lambda>s5. Inr (Some (ThrowObject x), s5)))) = Some (Inr (r, s'))"
      unfolding afterTearDown_def by (auto simp: Let_def split: sum.splits)
    from q faults_back_quiet(2)[OF sb] have q4: "quiet s2 s4" by (rule quiet_trans)
    with p have p4: "m_pendingException s4 \<noteq> None" by (simp add: quiet_def)
    show ?thesis
    proof (cases "vmfp s4 \<noteq> None")
      case True
      with rest have "unwindPhp_loop rt n s4 ?f3 = Some (Inr (r, s'))" by simp
      from q4 ih[OF p4 this] show ?thesis by (rule quiet_trans)
    next
      case False
      with rest have "faults_pop_back s4 = Inr s'"
        unfolding abort_bind_def by (auto split: sum.splits)
      from q4 faults_back_quiet(1)[OF this] show ?thesis by (rule quiet_trans)
    qed
  qed
qed

lemma unwindPhp_loop_quiet:
  "m_pendingException s \<noteq> None \<Longrightarrow> unwindPhp_loop rt n s fault = Some (Inr (r, s')) \<Longrightarrow>
   quiet s s'"
proof (induction n arbitrary: s fault)
  case 0
  then show ?case by simp
next
  case (Suc n)
  from Suc.prems(2) obtain fp fault1 discard s1 act s2 fault2 where
    t: "vmfp s = Some fp" "bindFault fp s fault = Inr (fault1, discard)"
    "assertBound fault1 = Inr ()"
    "(if discard then discardStackTemps fp (m_raiseOffset fault1) s else Inr s) = Inr s1"
    and h: "unwindPhp_handlers fp s1 fault1 = Inr (act, s2, fault2)"
    by (rule unwindPhp_loop_Inr)
  note q1 = discard_skips(2)[OF t(4)]
  with Suc.prems(1) have p1: "m_pendingException s1 \<noteq> None" by (simp add: quiet_def)
  with handlers_Inr_frame[OF h] have sk: "skipsHandlers s1 fp"
    by (auto simp: skipsHandlers_def)
  from skip_loop[OF sk h] have act: "act = Propagate" by simp
  note q2 = skip_loop_quiet[OF sk h]
  from q1 q2 have q: "quiet s s2" by (rule quiet_trans)
  with Suc.prems(1) have p2: "m_pendingException s2 \<noteq> None" by (simp add: quiet_def)
  from unwindPhp_loop_turn[OF t h, of rt n] act Suc.prems(2)
  have "afterTearDown rt n fault2 (tearDownFrame rt s2 (m_userException fault2))
          = Some (Inr (r, s'))" by simp
  from afterTearDown_quiet[OF Suc.IH p2 this] have "quiet s2 s'" by simp
  with q show ?case by (rule quiet_trans)
qed

lemma unwindPhp_quiet:
  assumes "m_pendingException s \<noteq> None" "unwindPhp rt n s = Some (Inr (r, s'))"
  shows "quiet s s'"
proof -
  from assms(2) obtain s1 where d: "discardMemberTVRefs s = Inr s1"
    and l: "unwindPhp_loop rt n s1 (last (m_faults s)) = Some (Inr (r, s'))"
    unfolding unwindPhp_def by (auto split: if_splits sum.splits)
  note q = discardMemberTVRefs_quiet[OF d]
  with assms(1) have "m_pendingException s1 \<noteq> None" by (simp add: quiet_def)
  from q unwindPhp_loop_quiet[OF this l] show ?thesis by (rule quiet_trans)
qed

lemma ex_pending_loop_run:
  "\<exists>s'. unwindPhp_loop ex_rt 1 ex_pending_state (ex_reraise 101)
          = Some (Inr (Some (ThrowObject 101), s')) \<and> m_faults s' = []"
proof -
  have fp: "vmfp ex_pending_state = Some 1"
    by (simp add: ex_pending_state_def ex_chain_state_def ex_state_def)
  have b: "bindFault 1 ex_pending_state (ex_reraise 101) = Inr (ex_reraise 101, False)"
    by (simp add: bindFault_def kInvalidOffset_def ex_reraise_def)
  have a: "assertBound (ex_reraise 101) = Inr ()"
    by (simp add: assertBound_def kInvalidOffset_def kInvalidNesting_def ex_reraise_def)
  have d: "(if False then discardStackTemps 1 (m_raiseOffset (ex_reraise 101)) ex_pending_state
            else Inr ex_pending_state) = Inr ex_pending_state" by simp
  have e: "m_userException (adopt (ex_reraise 101) (ex_fault 1)) = Some 101"
    by (simp add: adopt_def ex_reraise_def)
  from unwindPhp_loop_turn[OF fp b a d ex_pending_handlers, of ex_rt 0]
  have "unwindPhp_loop ex_rt 1 ex_pending_state (ex_reraise 101) =
      afterTearDown ex_rt 0 (adopt (ex_reraise 101) (ex_fault 1))
        (tearDownFrame ex_rt ex_merged_state (Some 101))"
    by (simp add: e)
  with ex_pending_teardown show ?thesis by simp
qed

lemma ex_pending_run:
  "\<exists>s'. unwindPhp ex_rt 1 ex_pending_state = Some (Inr (Some (ThrowObject 101), s'))"
proof -
  have "unwindPhp ex_rt 1 ex_pending_state
      = unwindPhp_loop ex_rt 1 ex_pending_state (ex_reraise 101)"
    by (simp add: unwindPhp_def discardMemberTVRefs_def peek_op_def abort_bind_def
        isMemberDimOp_def isMemberFinalOp_def ex_pending_state_def ex_chain_state_def
        ex_state_def ex_frame_def ex_func_def del: unwindPhp_loop.simps)
  with ex_pending_loop_run show ?thesis by auto
qed

lemma ex_host_events:
  "\<exists>s'. unwindCpp ex_rt 2 9 ex_ctor_state = Some (Inr (ThrowCpp 9, s')) \<and>
        events s' = [SetNoDestruct 50, FreeLocalsUnwind 2 2 None, FreeLocalsUnwind 1 2 None]"
  by (simp add: unwindCpp_def numeral_2_eq_2 discardMemberTVRefs_def
      discardPendingFaults.simps discardStackTemps_def trashClsRefSlots_def
      scopeExit_unwindCpp_def isMemberDimOp_def isMemberFinalOp_def tear_defs ex_defs
      offset_add_def)

text \<open>
  C3 (amended): while \<^verbatim>\<open>unwindCpp\<close> is active the flag \<open>m_unwindingCppException\<close> is
  set. The driver starts with the flag clear and sets it before its first step; every
  call logged during the run saw the flag set; in each turn of its loop the flag is set
  in the states handed to the release of the pending faults, to
  \<^verbatim>\<open>discardStackTemps\<close> and to \<^verbatim>\<open>tearDownFrame\<close> and in the states they return;
  and on every path by which the driver returns the flag is clear again (the driver is
  left only by a throw, and its scope guard runs then). The driver does leave,
  by its rethrow or by an abort, once its fuel covers the chain of frames. The handler
  search of the guest driver does not read the flag. It is disabled in a frame while a
  host exception is pending on the thread (\<open>m_pendingException\<close>) or the frame's locals
  have been released: then the loop over the handlers of that frame ends with
  \<open>Propagate\<close>, the program counter unchanged and no handler entered, and the turn of
  the driver for the frame comes to the teardown of the frame with no handler entered;
  and while a host exception is pending, a run of \<^verbatim>\<open>unwindPhp\<close> enters no handler
  in any frame.
\<close>

theorem C3_host_flag_and_handler_search:
  "(unwindCpp rt fuel exception s = Some (Inr (t, s')) \<longrightarrow>
      t = ThrowCpp exception \<and> \<not> m_unwindingCppException s \<and> \<not> m_unwindingCppException s' \<and>
      (\<exists>evs. events s' = events s @ evs \<and>
         events_unwindingCpp s' = events_unwindingCpp s @ replicate (length evs) True) \<and>
      (\<exists>s1 s2. discardMemberTVRefs (s\<lparr>m_unwindingCppException := True\<rparr>) = Inr s1 \<and>
         unwindCpp_loop rt fuel s1 = Some (Inr s2) \<and>
         m_unwindingCppException s1 \<and> m_unwindingCppException s2 \<and>
         s' = s2\<lparr>m_unwindingCppException := False\<rparr>)) \<and>
   (unwindCpp_loop rt (Suc n) a = Some (Inr b) \<longrightarrow>
      (\<exists>fp off a1 a2 a3. vmfp a = Some fp \<and> vmpc a = Some off \<and>
         discardPendingFaults fp a = Inr a1 \<and> discardStackTemps fp off a1 = Inr a2 \<and>
         tearDownFrame rt a2 None = Inr (None, a3) \<and>
         (if vmfp a3 = None then b = a3 else unwindCpp_loop rt n a3 = Some (Inr b)) \<and>
         m_unwindingCppException a1 = m_unwindingCppException a \<and>
         m_unwindingCppException a2 = m_unwindingCppException a \<and>
         m_unwindingCppException a3 = m_unwindingCppException a \<and>
         m_unwindingCppException b = m_unwindingCppException a)) \<and>
   (frames_within (frames s) (vmfp s) fuel \<and> 0 < fuel \<longrightarrow>
      unwindCpp rt fuel exception s \<noteq> None) \<and>
   (skipsHandlers u fp \<and> unwindPhp_handlers fp u fault = Inr (act, u', fault') \<longrightarrow>
      act = Propagate \<and> vmpc u' = vmpc u \<and>
      (\<exists>evs. events u' = events u @ evs \<and> DebuggerHook \<notin> set evs)) \<and>
   (vmfp w = Some q \<and> skipsHandlers w q \<and>
    unwindPhp_loop rt (Suc m) w g = Some (Inr (x, w')) \<longrightarrow>
      (\<exists>w2 g2. (\<exists>evs. events w2 = events w @ evs \<and> DebuggerHook \<notin> set evs) \<and>
         afterTearDown rt m g2 (tearDownFrame rt w2 (m_userException g2))
           = Some (Inr (x, w')))) \<and>
   (m_pendingException v \<noteq> None \<and> unwindPhp rt k v = Some (Inr (r, v')) \<longrightarrow>
      (\<exists>evs. events v' = events v @ evs \<and> DebuggerHook \<notin> set evs))"
proof -
  have A: "t = ThrowCpp exception \<and> \<not> m_unwindingCppException s \<and> \<not> m_unwindingCppException s' \<and>
      (\<exists>evs. events s' = events s @ evs \<and>
         events_unwindingCpp s' = events_unwindingCpp s @ replicate (length evs) True) \<and>
      (\<exists>s1 s2. discardMemberTVRefs (s\<lparr>m_unwindingCppException := True\<rparr>) = Inr s1 \<and>
         unwindCpp_loop rt fuel s1 = Some (Inr s2) \<and>
         m_unwindingCppException s1 \<and> m_unwindingCppException s2 \<and>
         s' = s2\<lparr>m_unwindingCppException := False\<rparr>)"
    if run: "unwindCpp rt fuel exception s = Some (Inr (t, s'))"
  proof -
    let ?s0 = "s\<lparr>m_unwindingCppException := True\<rparr>"
    from run have f0: "\<not> m_unwindingCppException s"
      unfolding unwindCpp_def by (auto split: if_splits)
    from run obtain s1 s2 where d: "discardMemberTVRefs ?s0 = Inr s1"
      and l: "unwindCpp_loop rt fuel s1 = Some (Inr s2)"
      and x: "scopeExit_unwindCpp s2 = Inr s'" and t: "t = ThrowCpp exception"
      unfolding unwindCpp_def abort_bind_def
      by (auto split: if_splits sum.splits option.splits)
    note q1 = discardMemberTVRefs_quiet[OF d]
    note q2 = unwindCpp_loop_quiet[OF l]
    from q1 q2 have q: "quiet ?s0 s2" by (rule quiet_trans)
    from q1 have f1: "m_unwindingCppException s1" by (simp add: quiet_def)
    from q have f2: "m_unwindingCppException s2" by (simp add: quiet_def)
    with x have s': "s' = s2\<lparr>m_unwindingCppException := False\<rparr>"
      by (simp add: scopeExit_unwindCpp_def)
    from q obtain evs where "events s2 = events s @ evs"
      "events_unwindingCpp s2 = events_unwindingCpp s @ replicate (length evs) True"
      by (auto simp: quiet_def)
    with s' have "\<exists>evs. events s' = events s @ evs \<and>
         events_unwindingCpp s' = events_unwindingCpp s @ replicate (length evs) True" by simp
    with t f0 s' d l f1 f2 show ?thesis by auto
  qed
  have B: "\<exists>fp off a1 a2 a3. vmfp a = Some fp \<and> vmpc a = Some off \<and>
         discardPendingFaults fp a = Inr a1 \<and> discardStackTemps fp off a1 = Inr a2 \<and>
         tearDownFrame rt a2 None = Inr (None, a3) \<and>
         (if vmfp a3 = None then b = a3 else unwindCpp_loop rt n a3 = Some (Inr b)) \<and>
         m_unwindingCppException a1 = m_unwindingCppException a \<and>
         m_unwindingCppException a2 = m_unwindingCppException a \<and>
         m_unwindingCppException a3 = m_unwindingCppException a \<and>
         m_unwindingCppException b = m_unwindingCppException a"
    if run: "unwindCpp_loop rt (Suc n) a = Some (Inr b)"
  proof -
    from run obtain fp off a1 a2 a3 where
      r: "vmfp a = Some fp" "vmpc a = Some off"
      "discardPendingFaults fp a = Inr a1" "discardStackTemps fp off a1 = Inr a2"
      "tearDownFrame rt a2 None = Inr (None, a3)"
      "if vmfp a3 = None then b = a3 else unwindCpp_loop rt n a3 = Some (Inr b)"
      by (rule unwindCpp_loop_turn)
    from discardPendingFaults_quiet[OF r(3)]
    have 1: "m_unwindingCppException a1 = m_unwindingCppException a" by (simp add: quiet_def)
    from discardStackTemps_quiet[OF r(4)] 1
    have 2: "m_unwindingCppException a2 = m_unwindingCppException a" by (simp add: quiet_def)
    from tearDownFrame_quiet[OF r(5)] 2
    have 3: "m_unwindingCppException a3 = m_unwindingCppException a" by (simp add: quiet_def)
    from unwindCpp_loop_quiet[OF run]
    have 4: "m_unwindingCppException b = m_unwindingCppException a" by (simp add: quiet_def)
    from r 1 2 3 4 show ?thesis by blast
  qed
  have C: "act = Propagate \<and> vmpc u' = vmpc u \<and>
      (\<exists>evs. events u' = events u @ evs \<and> DebuggerHook \<notin> set evs)"
    if "skipsHandlers u fp" "unwindPhp_handlers fp u fault = Inr (act, u', fault')"
    using skip_loop[OF that] skip_loop_quiet[OF that] by (auto simp: quiet_def)
  have D: "\<exists>evs. events v' = events v @ evs \<and> DebuggerHook \<notin> set evs"
    if "m_pendingException v \<noteq> None" "unwindPhp rt k v = Some (Inr (r, v'))"
    using unwindPhp_quiet[OF that] by (auto simp: quiet_def)
  have E: "\<exists>w2 g2. (\<exists>evs. events w2 = events w @ evs \<and> DebuggerHook \<notin> set evs) \<and>
         afterTearDown rt m g2 (tearDownFrame rt w2 (m_userException g2))
           = Some (Inr (x, w'))"
    if fp: "vmfp w = Some q" and sk: "skipsHandlers w q"
      and run: "unwindPhp_loop rt (Suc m) w g = Some (Inr (x, w'))"
  proof -
    from run obtain fp' g1 discard w1 act w2 g2 where
      t: "vmfp w = Some fp'" "bindFault fp' w g = Inr (g1, discard)"
      "assertBound g1 = Inr ()"
      "(if discard then discardStackTemps fp' (m_raiseOffset g1) w else Inr w) = Inr w1"
      and h: "unwindPhp_handlers fp' w1 g1 = Inr (act, w2, g2)"
      by (rule unwindPhp_loop_Inr)
    from t(1) fp have [simp]: "fp' = q" by simp
    from discard_skips[OF t(4)] sk have sk1: "skipsHandlers w1 q" and q1: "quiet w w1"
      by simp_all
    from skip_loop[OF sk1 h[simplified]] have act: "act = Propagate" by simp
    from q1 skip_loop_quiet[OF sk1 h[simplified]] have "quiet w w2" by (rule quiet_trans)
    then have "\<exists>evs. events w2 = events w @ evs \<and> DebuggerHook \<notin> set evs"
      by (auto simp: quiet_def)
    moreover from unwindPhp_loop_turn[OF t h, of rt m] act run
    have "afterTearDown rt m g2 (tearDownFrame rt w2 (m_userException g2))
          = Some (Inr (x, w'))" by simp
    ultimately show ?thesis by blast
  qed
  have F: "unwindCpp rt fuel exception s \<noteq> None"
    if "frames_within (frames s) (vmfp s) fuel" "0 < fuel"
    using that by (rule unwindCpp_returns)
  show ?thesis
    by (intro conjI; rule impI; (elim conjE)?; (rule A B C D E F; assumption))
qed

text \<open>The host driver unwinds the two frames of the example: its three calls saw the flag
  set, and it leaves with the flag clear. With a host exception pending, the guest
  driver enters no handler in frame 1 and rethrows the exception.\<close>

theorem C3_witness:
  "frames_within (frames ex_ctor_state) (vmfp ex_ctor_state) 2 \<and>
   flag_after (unwindCpp ex_rt 2 9 ex_ctor_state) = Some False \<and>
   thrown_by (unwindCpp ex_rt 2 9 ex_ctor_state) = Some (ThrowCpp 9) \<and>
   host_events (unwindCpp ex_rt 2 9 ex_ctor_state)
     = [SetNoDestruct 50, FreeLocalsUnwind 2 2 None, FreeLocalsUnwind 1 2 None] \<and>
   host_seen (unwindCpp ex_rt 2 9 ex_ctor_state) = [True, True, True] \<and>
   skipsHandlers ex_pending_state 1 \<and>
   action_of (unwindPhp_handlers 1 ex_pending_state (ex_reraise 101)) = Some Propagate \<and>
   m_pendingException ex_pending_state = Some 77 \<and>
   guest_thrown (unwindPhp ex_rt 1 ex_pending_state) = Some (ThrowObject 101) \<and>
   DebuggerHook \<notin> set (guest_events (unwindPhp ex_rt 1 ex_pending_state))"
proof -
  from ex_host_events obtain s' where
    run: "unwindCpp ex_rt 2 9 ex_ctor_state = Some (Inr (ThrowCpp 9, s'))"
    and ev: "events s' = [SetNoDestruct 50, FreeLocalsUnwind 2 2 None, FreeLocalsUnwind 1 2 None]"
    by blast
  from ex_pending_run obtain v' where
    grun: "unwindPhp ex_rt 1 ex_pending_state = Some (Inr (Some (ThrowObject 101), v'))" ..
  have e0: "events ex_ctor_state = []" "events_unwindingCpp ex_ctor_state = []"
    "events ex_pending_state = []" "m_pendingException ex_pending_state = Some 77"
    by (simp_all add: ex_defs ex_pending_state_def ex_chain_state_def)
  note c3 = C3_host_flag_and_handler_search[where rt = ex_rt and fuel = 2 and exception = 9
      and s = ex_ctor_state and t = "ThrowCpp 9" and s' = s'
      and u = ex_pending_state and fp = 1 and fault = "ex_reraise 101" and act = Propagate
      and u' = ex_merged_state and fault' = "adopt (ex_reraise 101) (ex_fault 1)"
      and v = ex_pending_state and k = 1 and r = "Some (ThrowObject 101)" and v' = v']
  from c3 run have a: "\<not> m_unwindingCppException s'" by blast
  from c3 run e0 obtain evs where "events s' = evs"
    "events_unwindingCpp s' = replicate (length evs) True" by auto
  with ev have seen: "events_unwindingCpp s' = [True, True, True]"
    by (simp add: numeral_3_eq_3)
  from c3 grun e0 have nh: "DebuggerHook \<notin> set (events v')" by auto
  have fw: "frames_within (frames ex_ctor_state) (vmfp ex_ctor_state) 2"
    by (simp add: numeral_2_eq_2 ex_defs)
  have act: "action_of (unwindPhp_handlers 1 ex_pending_state (ex_reraise 101)) = Some Propagate"
    unfolding ex_pending_handlers action_of_def by simp
  show ?thesis
    unfolding run grun
    using fw a ev seen ex_pending_skips act e0(4) nh
    by (simp add: flag_after_def thrown_by_def host_events_def host_seen_def guest_thrown_def
        guest_events_def)
qed

end
